theory Spec2Isabelle
  imports Main
begin

section \<open>The Hadamard simulator of \<open>creating_a_provider.ipynb\<close>\<close>

subsection \<open>Python values and errors\<close>

text \<open>
  The exceptions that the notebook's code can raise.  \<open>NameError\<close> is what the two
  \<^verbatim>\<open>raise QiskitError(...)\<close> statements of \<^verbatim>\<open>HadamardSimulator.run\<close> produce: no
  cell of the notebook imports \<^verbatim>\<open>QiskitError\<close>, so evaluating the name fails; either
  way the call raises.  \<open>AttributeError\<close> is reading \<^verbatim>\<open>self._result\<close> of a job on which
  it was never set.  \<open>MemoryError\<close> is what the allocation of a list raises whose size
  the interpreter refuses.
\<close>

datatype error =
  IndexError | TypeError | OverflowError | MemoryError | NameError | AttributeError

text \<open>
  Python list indexing \<^verbatim>\<open>xs[i]\<close>: a negative index counts from the end, an index
  outside \<open>[-len, len)\<close> raises IndexError.
\<close>

definition py_index :: "nat \<Rightarrow> int \<Rightarrow> error + nat" where
  "py_index len i =
     (let j = (if i < 0 then int len + i else i)
      in if 0 \<le> j \<and> j < int len then Inr (nat j) else Inl IndexError)"

definition getitem :: "'a list \<Rightarrow> int \<Rightarrow> error + 'a" where
  "getitem xs i = (case py_index (length xs) i of Inl e \<Rightarrow> Inl e | Inr j \<Rightarrow> Inr (xs ! j))"

definition setitem :: "'a list \<Rightarrow> int \<Rightarrow> 'a \<Rightarrow> error + 'a list" where
  "setitem xs i v = (case py_index (length xs) i of Inl e \<Rightarrow> Inl e | Inr j \<Rightarrow> Inr (xs[j := v]))"

text \<open>
  \<^verbatim>\<open>[0]*k\<close> on 64-bit CPython (the notebook's kernel).  A count that does not fit the
  machine's index type (\<open>k \<ge> 2 ^ 63\<close>, or \<open>k < - 2 ^ 63\<close>) raises OverflowError.  A
  list of \<open>2 ^ 60\<close> items or more is refused whatever the machine, since its size in
  bytes is beyond the largest object: MemoryError.  A negative count gives the empty
  list.  For a shorter list the outcome depends on the memory that the machine has
  left; the model takes the allocation to succeed there.
\<close>

definition list_repeat :: "int \<Rightarrow> error + int list" where
  "list_repeat k =
     (if k < - (2 ^ 63) \<or> 2 ^ 63 \<le> k then Inl OverflowError
      else if 2 ^ 60 \<le> k then Inl MemoryError
      else Inr (replicate (nat k) 0))"

text \<open>\<^verbatim>\<open>range(n)\<close>, empty for \<open>n \<le> 0\<close>.\<close>

definition py_range :: "int \<Rightarrow> int list" where
  "py_range n = map int [0..<nat n]"

subsection \<open>\<^verbatim>\<open>int(shots/(2**m))\<close>\<close>

text \<open>
  In Python 3, \<^verbatim>\<open>/\<close> on two integers is true division: the result is the binary64
  float nearest to the exact quotient (ties to even), and OverflowError is raised when
  that float would not be finite.  \<^verbatim>\<open>int(...)\<close> then truncates towards zero.  The
  divisor in the simulator is always a power of two, so the quotient's significand is
  that of the dividend: the dividend is rounded to 53 significant bits and the result
  is scaled.  Everything is computed on integers here.
\<close>

fun bit_length :: "nat \<Rightarrow> nat" where
  "bit_length a = (if a = 0 then 0 else Suc (bit_length (a div 2)))"

declare bit_length.simps [simp del]

definition round53 :: "nat \<Rightarrow> nat" where
  \<comment> \<open>the multiple of \<open>2 ^ (bit_length a - 53)\<close> nearest to \<open>a\<close>, ties to the even multiple\<close>
  "round53 a =
     (let s = bit_length a - 53; q = a div 2 ^ s; r = a mod 2 ^ s
      in if 2 ^ s < 2 * r \<or> (2 * r = 2 ^ s \<and> odd q) then (q + 1) * 2 ^ s else q * 2 ^ s)"

definition int_truediv_pow2 :: "int \<Rightarrow> nat \<Rightarrow> error + int" where
  \<comment> \<open>\<^verbatim>\<open>int(shots / 2**m)\<close>\<close>
  "int_truediv_pow2 shots m =
     (let v = round53 (nat \<bar>shots\<bar>)
      in if 2 ^ (1024 + m) \<le> v then Inl OverflowError
         else Inr (sgn shots * int (v div 2 ^ m)))"

subsection \<open>\<^verbatim>\<open>run_hadamard_simulator\<close>\<close>

text \<open>
  \<^verbatim>\<open>for qubit in list_of_qubits: hadamard_list[qubit] = (1 + hadamard_list[qubit])%2\<close>
\<close>

fun hadamard_loop :: "int list \<Rightarrow> int list \<Rightarrow> error + int list" where
  "hadamard_loop hadamard_list [] = Inr hadamard_list"
| "hadamard_loop hadamard_list (qubit # rest) =
     (case getitem hadamard_list qubit of
        Inl e \<Rightarrow> Inl e
      | Inr b \<Rightarrow>
          (case setitem hadamard_list qubit ((1 + b) mod 2) of
             Inl e \<Rightarrow> Inl e
           | Inr hadamard_list' \<Rightarrow> hadamard_loop hadamard_list' rest))"

text \<open>\<^verbatim>\<open>'{0:b}'.format(i).zfill(number_of_qubits)[::-1]\<close>\<close>

definition bit_char :: "nat \<Rightarrow> char" where
  "bit_char b = (if b = 0 then CHR ''0'' else CHR ''1'')"

fun format_b :: "nat \<Rightarrow> string" where
  "format_b i = (if i < 2 then [bit_char i] else format_b (i div 2) @ [bit_char (i mod 2)])"

declare format_b.simps [simp del]

definition zfill :: "string \<Rightarrow> nat \<Rightarrow> string" where
  "zfill s width = replicate (width - length s) CHR ''0'' @ s"

definition basis_state_of :: "int \<Rightarrow> int \<Rightarrow> string" where
  "basis_state_of number_of_qubits i = rev (zfill (format_b (nat i)) (nat number_of_qubits))"

text \<open>
  The inner loop \<^verbatim>\<open>for qubit in range(number_of_qubits)\<close> for one basis state \<open>i\<close>.
  It works on the whole \<open>result\<close> list, which it updates at index \<open>i\<close>; the
  \<^verbatim>\<open>break\<close> ends the loop with \<open>result[i] = 0\<close>.  The second operand of \<^verbatim>\<open>and\<close>
  is read only when the first holds, and \<^verbatim>\<open>result[i] += ...\<close> reads \<open>result[i]\<close>
  before it evaluates the right-hand side.
\<close>

fun qubit_loop :: "int list \<Rightarrow> string \<Rightarrow> int \<Rightarrow> int \<Rightarrow> int list \<Rightarrow> int list \<Rightarrow> error + int list" where
  "qubit_loop hadamard_list basis_state shots i [] result = Inr result"
| "qubit_loop hadamard_list basis_state shots i (qubit # rest) result =
     (case getitem hadamard_list qubit of
        Inl e \<Rightarrow> Inl e
      | Inr h \<Rightarrow>
          (case (if h = 0 then getitem basis_state qubit else Inr CHR ''0'') of
             Inl e \<Rightarrow> Inl e
           | Inr c \<Rightarrow>
               if h = 0 \<and> c = CHR ''1'' then setitem result i 0
               else if h = 1 then
                 (case getitem result i of
                    Inl e \<Rightarrow> Inl e
                  | Inr r \<Rightarrow>
                      (case int_truediv_pow2 shots (1 + count_list hadamard_list 1) of
                         Inl e \<Rightarrow> Inl e
                       | Inr d \<Rightarrow>
                           (case setitem result i (r + d) of
                              Inl e \<Rightarrow> Inl e
                            | Inr result' \<Rightarrow>
                                qubit_loop hadamard_list basis_state shots i rest result')))
               else qubit_loop hadamard_list basis_state shots i rest result))"

text \<open>The outer loop \<^verbatim>\<open>for i in range(2**number_of_qubits)\<close>.\<close>

fun state_loop :: "int \<Rightarrow> int list \<Rightarrow> int \<Rightarrow> int list \<Rightarrow> int list \<Rightarrow> error + int list" where
  "state_loop number_of_qubits hadamard_list shots [] result = Inr result"
| "state_loop number_of_qubits hadamard_list shots (i # rest) result =
     (case qubit_loop hadamard_list (basis_state_of number_of_qubits i) shots i
             (py_range number_of_qubits) result of
        Inl e \<Rightarrow> Inl e
      | Inr result' \<Rightarrow> state_loop number_of_qubits hadamard_list shots rest result')"

text \<open>
  The function.  For a negative \<open>number_of_qubits\<close>, \<^verbatim>\<open>[0]*number_of_qubits\<close> is the
  empty list, and \<^verbatim>\<open>2**number_of_qubits\<close> is a float, so that
  \<^verbatim>\<open>[0]*(2**number_of_qubits)\<close> raises TypeError (when the first loop has not already
  raised IndexError).  From 60 qubits on, the list of counts cannot be allocated.
\<close>

definition run_hadamard_simulator :: "int \<Rightarrow> int list \<Rightarrow> int \<Rightarrow> error + int list" where
  "run_hadamard_simulator number_of_qubits list_of_qubits shots =
     (case list_repeat number_of_qubits of
        Inl e \<Rightarrow> Inl e
      | Inr hadamard_list0 \<Rightarrow>
          (case hadamard_loop hadamard_list0 list_of_qubits of
             Inl e \<Rightarrow> Inl e
           | Inr hadamard_list \<Rightarrow>
               if number_of_qubits < 0 then Inl TypeError
               else
                 (case list_repeat (2 ^ nat number_of_qubits) of
                    Inl e \<Rightarrow> Inl e
                  | Inr result \<Rightarrow>
                      state_loop number_of_qubits hadamard_list shots
                        (py_range (2 ^ nat number_of_qubits)) result)))"

subsection \<open>Notions used to state the properties of the simulator\<close>

text \<open>
  The arguments the docstring of \<^verbatim>\<open>run_hadamard_simulator\<close> has in mind: a number of
  qubits that is not negative and qubit indices in \<open>[0, number_of_qubits)\<close>.
\<close>

definition valid_input :: "int \<Rightarrow> int list \<Rightarrow> bool" where
  "valid_input number_of_qubits list_of_qubits \<longleftrightarrow>
     0 \<le> number_of_qubits \<and> (\<forall>q\<in>set list_of_qubits. 0 \<le> q \<and> q < number_of_qubits)"

text \<open>Qubit \<open>q\<close> occurs an odd number of times in \<open>list_of_qubits\<close>.\<close>

definition odd_parity :: "int list \<Rightarrow> nat \<Rightarrow> bool" where
  "odd_parity list_of_qubits q \<longleftrightarrow> odd (count_list list_of_qubits (int q))"

definition odd_qubits :: "int \<Rightarrow> int list \<Rightarrow> nat list" where
  "odd_qubits number_of_qubits list_of_qubits =
     filter (odd_parity list_of_qubits) [0..<nat number_of_qubits]"

text \<open>The parity of each qubit, as a list: what the first loop leaves in \<open>hadamard_list\<close>.\<close>

definition parities :: "nat \<Rightarrow> int list \<Rightarrow> int list" where
  "parities n qs = map (\<lambda>j. int (count_list qs (int j)) mod 2) [0..<n]"

text \<open>Basis state \<open>i\<close> has a 1-bit on a qubit of even parity.\<close>

definition blocked :: "int \<Rightarrow> int list \<Rightarrow> nat \<Rightarrow> bool" where
  "blocked number_of_qubits list_of_qubits i \<longleftrightarrow>
     (\<exists>q\<in>set [0..<nat number_of_qubits]. bit i q \<and> \<not> odd_parity list_of_qubits q)"

text \<open>
  The counts that a uniform distribution of the shots over the reachable basis states
  gives: \<open>shots\<close> divided by \<open>2 ^ k\<close> on each basis state whose 1-bits all lie on
  odd-parity qubits, \<open>0\<close> elsewhere, for \<open>k\<close> odd-parity qubits.  This definition follows
  the specification, not the code.
\<close>

definition expected_counts :: "int \<Rightarrow> int list \<Rightarrow> int \<Rightarrow> int list" where
  "expected_counts number_of_qubits list_of_qubits shots =
     map (\<lambda>i. if blocked number_of_qubits list_of_qubits i then 0
               else shots div 2 ^ length (odd_qubits number_of_qubits list_of_qubits))
       [0..<2 ^ nat number_of_qubits]"

section \<open>The backend, the job and the provider\<close>

subsection \<open>Data\<close>

text \<open>The configuration dictionary of \<^verbatim>\<open>HadamardSimulator.__init__\<close>.\<close>

record GateConfig =
  gate_name :: string
  parameters :: "string list"
  qasm_def :: string

record BackendConfiguration =
  backend_name :: string
  backend_version :: string
  url :: string
  simulator :: bool
  local :: bool
  description :: string
  basis_gates :: "string list"
  memory :: bool
  n_qubits :: int
  conditional :: bool
  max_shots :: int
  open_pulse :: bool
  gates :: "GateConfig list"

text \<open>
  A backend holds its configuration and a reference to its provider (the provider's
  list holds the backend, so the reference is an object identity, not the object).
\<close>

type_synonym ref = nat

record HadamardSimulator =
  configuration :: BackendConfiguration
  provider :: "ref option"

definition HadamardSimulator_init :: "ref option \<Rightarrow> HadamardSimulator" where
  "HadamardSimulator_init provider_ref =
     \<lparr>configuration =
        \<lparr>backend_name = ''hadamard_simulator'',
         backend_version = ''0.1.0'',
         url = ''http://www.i_love_hadamard.com'',
         simulator = True,
         local = True,
         description = ''Simulates only Hadamard gates'',
         basis_gates = [''h'', ''x''],
         memory = True,
         n_qubits = 30,
         conditional = False,
         max_shots = 100000,
         open_pulse = False,
         gates = [\<lparr>gate_name = ''TODO'', parameters = [], qasm_def = ''TODO''\<rparr>]\<rparr>,
      provider = provider_ref\<rparr>"

text \<open>\<^verbatim>\<open>backend.name()\<close> (of the base class): the configured backend name.\<close>

definition HadamardSimulator_name :: "HadamardSimulator \<Rightarrow> string" where
  "HadamardSimulator_name self = backend_name (configuration self)"

text \<open>
  The parts of a Qobj that \<^verbatim>\<open>run\<close> reads.  \<open>instr_conditional\<close> is the instruction's
  \<^verbatim>\<open>conditional\<close> attribute where it has one (a register index).
\<close>

record QobjInstruction =
  instr_name :: string
  instr_qubits :: "int list"
  instr_conditional :: "int option"

record QobjHeader =
  header_name :: string

record QobjExperiment =
  config_n_qubits :: int
  instructions :: "QobjInstruction list"
  header :: QobjHeader

record Qobj =
  experiments :: "QobjExperiment list"
  config_shots :: int

text \<open>The dictionaries that \<^verbatim>\<open>run\<close> builds and hands to \<^verbatim>\<open>Result.from_dict\<close>.\<close>

record ExperimentResult =
  exp_name :: string
  exp_success :: bool
  exp_shots :: int
  exp_counts :: "string \<rightharpoonup> int"
  exp_header :: QobjHeader

record Result =
  results :: "ExperimentResult list"
  result_backend_name :: string
  result_backend_version :: string
  qobj_id :: string
  result_job_id :: string
  success :: bool

subsection \<open>\<^verbatim>\<open>HadamardJob\<close>\<close>

text \<open>
  \<open>job_backend\<close> and \<open>job_id\<close> are what \<^verbatim>\<open>BaseJob.__init__(backend, 1)\<close> stores;
  \<open>job_result\<close> is the attribute \<^verbatim>\<open>_result\<close>, which does not exist until
  \<^verbatim>\<open>run\<close> assigns it.
\<close>

record HadamardJob =
  job_backend :: "HadamardSimulator option"
  job_id :: int
  job_result :: "Result option"

definition HadamardJob_init :: "HadamardSimulator option \<Rightarrow> HadamardJob" where
  "HadamardJob_init backend = \<lparr>job_backend = backend, job_id = 1, job_result = None\<rparr>"

definition HadamardJob_result :: "HadamardJob \<Rightarrow> error + Result" where
  "HadamardJob_result self =
     (case job_result self of None \<Rightarrow> Inl AttributeError | Some r \<Rightarrow> Inr r)"

text \<open>
  The three methods whose body is \<^verbatim>\<open>pass\<close>: each returns \<^verbatim>\<open>None\<close> (the unit value)
  and the job as it was.
\<close>

definition HadamardJob_cancel :: "HadamardJob \<Rightarrow> unit \<times> HadamardJob" where
  "HadamardJob_cancel self = ((), self)"

definition HadamardJob_status :: "HadamardJob \<Rightarrow> unit \<times> HadamardJob" where
  "HadamardJob_status self = ((), self)"

definition HadamardJob_submit :: "HadamardJob \<Rightarrow> unit \<times> HadamardJob" where
  "HadamardJob_submit self = ((), self)"

subsection \<open>\<^verbatim>\<open>HadamardSimulator.run\<close>\<close>

text \<open>
  \<^verbatim>\<open>if getattr(operation, 'conditional', None):\<close> is Python's truth test: a missing
  attribute, \<^verbatim>\<open>None\<close> and \<open>0\<close> are all false.
\<close>

definition truthy :: "int option \<Rightarrow> bool" where
  "truthy v = (case v of None \<Rightarrow> False | Some c \<Rightarrow> c \<noteq> 0)"

text \<open>The loop over \<^verbatim>\<open>circuit.instructions\<close>, which appends to \<open>list_of_qubits\<close>.\<close>

fun instructions_loop :: "QobjInstruction list \<Rightarrow> int list \<Rightarrow> error + int list" where
  "instructions_loop [] list_of_qubits = Inr list_of_qubits"
| "instructions_loop (operation # rest) list_of_qubits =
     (if truthy (instr_conditional operation) then Inl NameError
      else if instr_name operation \<noteq> ''h'' then
        (if instr_name operation = ''measure'' then instructions_loop rest list_of_qubits
         else Inl NameError)
      else
        (case getitem (instr_qubits operation) 0 of
           Inl e \<Rightarrow> Inl e
         | Inr q \<Rightarrow> instructions_loop rest (list_of_qubits @ [q])))"

text \<open>Python's \<^verbatim>\<open>hex\<close>.\<close>

definition hex_digit :: "nat \<Rightarrow> char" where
  "hex_digit d = ''0123456789abcdef'' ! d"

fun hex_digits :: "nat \<Rightarrow> string" where
  "hex_digits i =
     (if i < 16 then [hex_digit i] else hex_digits (i div 16) @ [hex_digit (i mod 16)])"

declare hex_digits.simps [simp del]

definition hex :: "int \<Rightarrow> string" where
  "hex i = (if i < 0 then ''-0x'' @ hex_digits (nat (- i)) else ''0x'' @ hex_digits (nat i))"

text \<open>
  \<^verbatim>\<open>for i in range(2**number_of_qubits): if counts[i] != 0: formatted_counts[hex(i)] = counts[i]\<close>
\<close>

fun counts_loop :: "int list \<Rightarrow> int list \<Rightarrow> (string \<rightharpoonup> int) \<Rightarrow> error + (string \<rightharpoonup> int)" where
  "counts_loop counts [] formatted_counts = Inr formatted_counts"
| "counts_loop counts (i # rest) formatted_counts =
     (case getitem counts i of
        Inl e \<Rightarrow> Inl e
      | Inr c \<Rightarrow>
          if c \<noteq> 0 then counts_loop counts rest (formatted_counts(hex i \<mapsto> c))
          else counts_loop counts rest formatted_counts)"

text \<open>
  The body of the loop over \<^verbatim>\<open>qobj.experiments\<close> for one circuit.  The range
  \<^verbatim>\<open>2**number_of_qubits\<close> is only reached when the simulator has returned, that is
  for a number of qubits that is not negative.
\<close>

definition run_circuit :: "int \<Rightarrow> QobjExperiment \<Rightarrow> error + ExperimentResult" where
  "run_circuit shots circuit =
     (let number_of_qubits = config_n_qubits circuit
      in case instructions_loop (instructions circuit) [] of
           Inl e \<Rightarrow> Inl e
         | Inr list_of_qubits \<Rightarrow>
             (case run_hadamard_simulator number_of_qubits list_of_qubits shots of
                Inl e \<Rightarrow> Inl e
              | Inr counts \<Rightarrow>
                  (case counts_loop counts (py_range (2 ^ nat number_of_qubits)) Map.empty of
                     Inl e \<Rightarrow> Inl e
                   | Inr formatted_counts \<Rightarrow>
                       Inr \<lparr>exp_name = header_name (header circuit),
                            exp_success = True,
                            exp_shots = shots,
                            exp_counts = formatted_counts,
                            exp_header = header circuit\<rparr>)))"

fun experiments_loop ::
  "int \<Rightarrow> QobjExperiment list \<Rightarrow> ExperimentResult list \<Rightarrow> error + ExperimentResult list" where
  "experiments_loop shots [] experiment_results = Inr experiment_results"
| "experiments_loop shots (circuit # rest) experiment_results =
     (case run_circuit shots circuit of
        Inl e \<Rightarrow> Inl e
      | Inr r \<Rightarrow> experiments_loop shots rest (experiment_results @ [r]))"

definition HadamardSimulator_run :: "HadamardSimulator \<Rightarrow> Qobj \<Rightarrow> error + HadamardJob" where
  "HadamardSimulator_run self qobj =
     (let hadamard_job = HadamardJob_init None
      in case experiments_loop (config_shots qobj) (experiments qobj) [] of
           Inl e \<Rightarrow> Inl e
         | Inr experiment_results \<Rightarrow>
             Inr (hadamard_job\<lparr>job_result :=
                    Some \<lparr>results = experiment_results,
                          result_backend_name = ''hadamard_simulator'',
                          result_backend_version = ''0.1.0'',
                          qobj_id = ''0'',
                          result_job_id = ''0'',
                          success = True\<rparr>\<rparr>))"

subsection \<open>\<^verbatim>\<open>HadamardProvider\<close>\<close>

record HadamardProvider =
  provider_backends :: "HadamardSimulator list"

definition HadamardProvider_init :: "ref \<Rightarrow> HadamardProvider" where
  "HadamardProvider_init self_ref =
     \<lparr>provider_backends = [HadamardSimulator_init (Some self_ref)]\<rparr>"

text \<open>
  \<^verbatim>\<open>filter_backends\<close> belongs to the SDK (\<^verbatim>\<open>qiskit.providers.providerutils\<close>), not to
  the notebook: it keeps the backends that satisfy \<open>filters\<close>, all of them when
  \<open>filters\<close> is \<^verbatim>\<open>None\<close>.  Keyword criteria are not modelled.
\<close>

definition filter_backends ::
  "HadamardSimulator list \<Rightarrow> (HadamardSimulator \<Rightarrow> bool) option \<Rightarrow> HadamardSimulator list" where
  "filter_backends backends filters =
     (case filters of None \<Rightarrow> backends | Some p \<Rightarrow> filter p backends)"

text \<open>
  \<^verbatim>\<open>if name:\<close> is the truth test again: \<^verbatim>\<open>None\<close> and the empty string are false.
  The method returns the list and the provider, which it leaves as it was.
\<close>

definition backends ::
  "HadamardProvider \<Rightarrow> string option \<Rightarrow> (HadamardSimulator \<Rightarrow> bool) option
     \<Rightarrow> HadamardSimulator list \<times> HadamardProvider" where
  "backends self name filters =
     (let backends0 = provider_backends self;
          backends1 =
            (case name of
               None \<Rightarrow> backends0
             | Some n \<Rightarrow>
                 if n \<noteq> [] then filter (\<lambda>backend. HadamardSimulator_name backend = n) backends0
                 else backends0)
      in (filter_backends backends1 filters, self))"

subsection \<open>Notions used to state the properties of the backend and the provider\<close>

text \<open>
  The words of the claims, on the data.  An instruction is conditional when it has a
  \<^verbatim>\<open>conditional\<close> attribute, whatever the value; its gate is one of the two that the
  simulator knows when it is named \<open>h\<close> or \<open>measure\<close>.
\<close>

definition is_conditional :: "QobjInstruction \<Rightarrow> bool" where
  "is_conditional operation \<longleftrightarrow> instr_conditional operation \<noteq> None"

definition h_or_measure :: "QobjInstruction \<Rightarrow> bool" where
  "h_or_measure operation \<longleftrightarrow>
     instr_name operation = ''h'' \<or> instr_name operation = ''measure''"





text \<open>
  An operation on which neither \<^verbatim>\<open>raise\<close> of the loop over the instructions fires
  (for the lemmas about that loop).
\<close>

definition supported :: "QobjInstruction \<Rightarrow> bool" where
  "supported operation \<longleftrightarrow>
     \<not> truthy (instr_conditional operation) \<and>
     (instr_name operation = ''h'' \<or> instr_name operation = ''measure'')"






text \<open>
  What the specification says \<^verbatim>\<open>backends\<close> returns: the backends with the given name
  when a name is given, the whole list for \<^verbatim>\<open>None\<close>.  This definition follows the
  specification, not the code.
\<close>

definition backends_by_name :: "HadamardProvider \<Rightarrow> string option \<Rightarrow> HadamardSimulator list" where
  "backends_by_name self name =
     (case name of
        None \<Rightarrow> provider_backends self
      | Some n \<Rightarrow> filter (\<lambda>backend. HadamardSimulator_name backend = n) (provider_backends self))"

subsection \<open>Concrete inputs\<close>

text \<open>
  The circuit of the notebook (Hadamard gates on qubits 3, 1, 3 and 2 of four, then a
  measurement of every qubit) with 1024 shots, and the job that \<^verbatim>\<open>run\<close> returns for it.
\<close>

definition h_gate :: "int \<Rightarrow> QobjInstruction" where
  "h_gate q = \<lparr>instr_name = ''h'', instr_qubits = [q], instr_conditional = None\<rparr>"

definition measure_op :: "int \<Rightarrow> QobjInstruction" where
  "measure_op q = \<lparr>instr_name = ''measure'', instr_qubits = [q], instr_conditional = None\<rparr>"

definition notebook_circuit :: QobjExperiment where
  "notebook_circuit =
     \<lparr>config_n_qubits = 4,
      instructions = [h_gate 3, h_gate 1, h_gate 3, h_gate 2,
                      measure_op 0, measure_op 1, measure_op 2, measure_op 3],
      header = \<lparr>header_name = ''circuit0''\<rparr>\<rparr>"

definition notebook_qobj :: Qobj where
  "notebook_qobj = \<lparr>experiments = [notebook_circuit], config_shots = 1024\<rparr>"

definition notebook_result :: Result where
  "notebook_result =
     \<lparr>results =
        [\<lparr>exp_name = ''circuit0'',
          exp_success = True,
          exp_shots = 1024,
          exp_counts = [''0x0'' \<mapsto> 256, ''0x2'' \<mapsto> 256, ''0x4'' \<mapsto> 256, ''0x6'' \<mapsto> 256],
          exp_header = \<lparr>header_name = ''circuit0''\<rparr>\<rparr>],
      result_backend_name = ''hadamard_simulator'',
      result_backend_version = ''0.1.0'',
      qobj_id = ''0'',
      result_job_id = ''0'',
      success = True\<rparr>"

definition notebook_job :: HadamardJob where
  "notebook_job = \<lparr>job_backend = None, job_id = 1, job_result = Some notebook_result\<rparr>"




text \<open>The same with the \<^verbatim>\<open>conditional\<close> attribute 1, and a circuit with an \<open>x\<close> gate.\<close>

definition conditional_one_qobj :: Qobj where
  "conditional_one_qobj =
     \<lparr>experiments =
        [\<lparr>config_n_qubits = 1,
          instructions = [\<lparr>instr_name = ''h'', instr_qubits = [0], instr_conditional = Some 1\<rparr>],
          header = \<lparr>header_name = ''circuit0''\<rparr>\<rparr>],
      config_shots = 1024\<rparr>"

definition x_gate_qobj :: Qobj where
  "x_gate_qobj =
     \<lparr>experiments =
        [\<lparr>config_n_qubits = 1,
          instructions = [\<lparr>instr_name = ''x'', instr_qubits = [0], instr_conditional = None\<rparr>],
          header = \<lparr>header_name = ''circuit0''\<rparr>\<rparr>],
      config_shots = 1024\<rparr>"

section \<open>The simulator on a store\<close>

text \<open>
  The same function once more, with its lists as objects in a store, to make visible
  which objects a call reads and writes.  A reference is an index into the store and a
  new list gets the next free index.  \<^verbatim>\<open>list_of_qubits\<close> is passed by reference;
  \<^verbatim>\<open>hadamard_list\<close> and \<^verbatim>\<open>result\<close> are the two lists the function creates; the
  function has no other variable that outlives a call (it names no global).  An
  exception leaves the store as it is at that point.
\<close>

type_synonym store = "int list list"

definition new_list :: "store \<Rightarrow> int list \<Rightarrow> ref \<times> store" where
  "new_list s xs = (length s, s @ [xs])"

definition load_item :: "store \<Rightarrow> ref \<Rightarrow> int \<Rightarrow> error + int" where
  "load_item s a i = getitem (s ! a) i"

definition store_item :: "store \<Rightarrow> ref \<Rightarrow> int \<Rightarrow> int \<Rightarrow> error + store" where
  "store_item s a i v =
     (case setitem (s ! a) i v of Inl e \<Rightarrow> Inl e | Inr xs \<Rightarrow> Inr (s[a := xs]))"

fun hadamard_loop_st :: "store \<Rightarrow> ref \<Rightarrow> int list \<Rightarrow> error option \<times> store" where
  "hadamard_loop_st s hadamard_list [] = (None, s)"
| "hadamard_loop_st s hadamard_list (qubit # rest) =
     (case load_item s hadamard_list qubit of
        Inl e \<Rightarrow> (Some e, s)
      | Inr b \<Rightarrow>
          (case store_item s hadamard_list qubit ((1 + b) mod 2) of
             Inl e \<Rightarrow> (Some e, s)
           | Inr s' \<Rightarrow> hadamard_loop_st s' hadamard_list rest))"

fun qubit_loop_st ::
  "store \<Rightarrow> ref \<Rightarrow> string \<Rightarrow> int \<Rightarrow> ref \<Rightarrow> int \<Rightarrow> int list \<Rightarrow> error option \<times> store" where
  "qubit_loop_st s hadamard_list basis_state shots result i [] = (None, s)"
| "qubit_loop_st s hadamard_list basis_state shots result i (qubit # rest) =
     (case load_item s hadamard_list qubit of
        Inl e \<Rightarrow> (Some e, s)
      | Inr h \<Rightarrow>
          (case (if h = 0 then getitem basis_state qubit else Inr CHR ''0'') of
             Inl e \<Rightarrow> (Some e, s)
           | Inr c \<Rightarrow>
               if h = 0 \<and> c = CHR ''1'' then
                 (case store_item s result i 0 of
                    Inl e \<Rightarrow> (Some e, s)
                  | Inr s' \<Rightarrow> (None, s'))
               else if h = 1 then
                 (case load_item s result i of
                    Inl e \<Rightarrow> (Some e, s)
                  | Inr r \<Rightarrow>
                      (case int_truediv_pow2 shots (1 + count_list (s ! hadamard_list) 1) of
                         Inl e \<Rightarrow> (Some e, s)
                       | Inr d \<Rightarrow>
                           (case store_item s result i (r + d) of
                              Inl e \<Rightarrow> (Some e, s)
                            | Inr s' \<Rightarrow>
                                qubit_loop_st s' hadamard_list basis_state shots result i rest)))
               else qubit_loop_st s hadamard_list basis_state shots result i rest))"

fun state_loop_st ::
  "store \<Rightarrow> int \<Rightarrow> ref \<Rightarrow> int \<Rightarrow> ref \<Rightarrow> int list \<Rightarrow> error option \<times> store" where
  "state_loop_st s number_of_qubits hadamard_list shots result [] = (None, s)"
| "state_loop_st s number_of_qubits hadamard_list shots result (i # rest) =
     (case qubit_loop_st s hadamard_list (basis_state_of number_of_qubits i) shots result i
             (py_range number_of_qubits) of
        (Some e, s') \<Rightarrow> (Some e, s')
      | (None, s') \<Rightarrow> state_loop_st s' number_of_qubits hadamard_list shots result rest)"

text \<open>
  The first loop runs over the elements of the list object \<^verbatim>\<open>list_of_qubits\<close>; its
  body writes \<^verbatim>\<open>hadamard_list\<close> only, which is another object.
\<close>

definition run_hadamard_simulator_st :: "store \<Rightarrow> int \<Rightarrow> ref \<Rightarrow> int \<Rightarrow> (error + ref) \<times> store" where
  "run_hadamard_simulator_st s number_of_qubits list_of_qubits shots =
     (case list_repeat number_of_qubits of
        Inl e \<Rightarrow> (Inl e, s)
      | Inr zeros \<Rightarrow>
          (case new_list s zeros of
             (hadamard_list, s1) \<Rightarrow>
               (case hadamard_loop_st s1 hadamard_list (s1 ! list_of_qubits) of
                  (Some e, s2) \<Rightarrow> (Inl e, s2)
                | (None, s2) \<Rightarrow>
                    if number_of_qubits < 0 then (Inl TypeError, s2)
                    else
                      (case list_repeat (2 ^ nat number_of_qubits) of
                         Inl e \<Rightarrow> (Inl e, s2)
                       | Inr zeros' \<Rightarrow>
                           (case new_list s2 zeros' of
                              (result, s3) \<Rightarrow>
                                (case state_loop_st s3 number_of_qubits hadamard_list shots
                                        result (py_range (2 ^ nat number_of_qubits)) of
                                   (Some e, s4) \<Rightarrow> (Inl e, s4)
                                 | (None, s4) \<Rightarrow> (Inr result, s4)))))))"

text \<open>What the caller gets: the exception, or the list that the returned reference names.\<close>

definition returned :: "(error + ref) \<times> store \<Rightarrow> error + int list" where
  "returned out = (case fst out of Inl e \<Rightarrow> Inl e | Inr a \<Rightarrow> Inr (snd out ! a))"

section \<open>Properties of the simulator\<close>

subsection \<open>Indexing and the parity list\<close>

lemma py_index_nat: "q < len \<Longrightarrow> py_index len (int q) = Inr q"
  by (simp add: py_index_def)

lemma getitem_nat: "q < length xs \<Longrightarrow> getitem xs (int q) = Inr (xs ! q)"
  by (simp add: getitem_def py_index_nat)

lemma setitem_nat: "q < length xs \<Longrightarrow> setitem xs (int q) v = Inr (xs[q := v])"
  by (simp add: setitem_def py_index_nat)

lemma hadamard_loop_parity:
  "\<forall>q\<in>set qs. 0 \<le> q \<and> q < int n \<Longrightarrow>
   hadamard_loop (map (\<lambda>j. f j mod 2) [0..<n]) qs =
     Inr (map (\<lambda>j. (f j + int (count_list qs (int j))) mod 2) [0..<n])"
proof (induction qs arbitrary: f)
  case Nil
  show ?case by simp
next
  case (Cons q qs)
  from Cons.prems have "0 \<le> q" "q < int n" by simp_all
  then obtain m where m: "q = int m" "m < n"
    by (metis nonneg_int_cases of_nat_less_iff)
  let ?h = "map (\<lambda>j. f j mod 2) [0..<n]"
  let ?f = "f(m := f m + 1)"
  have upd: "?h[m := (1 + ?h ! m) mod 2] = map (\<lambda>j. ?f j mod 2) [0..<n]"
    using m by (auto simp: list_eq_iff_nth_eq nth_list_update mod_simps add.commute)
  have "hadamard_loop ?h (q # qs) = hadamard_loop (?h[m := (1 + ?h ! m) mod 2]) qs"
    using m by (simp add: getitem_nat setitem_nat)
  also have "\<dots> = hadamard_loop (map (\<lambda>j. ?f j mod 2) [0..<n]) qs"
    by (simp only: upd)
  also have "\<dots> = Inr (map (\<lambda>j. (?f j + int (count_list qs (int j))) mod 2) [0..<n])"
    using Cons.prems by (intro Cons.IH) simp
  also have "\<dots> = Inr (map (\<lambda>j. (f j + int (count_list (q # qs) (int j))) mod 2) [0..<n])"
    using m by (auto simp: ac_simps)
  finally show ?case .
qed

lemma format_b_nonempty: "0 < length (format_b i)"
  by (subst format_b.simps) simp

lemma format_b_length_le: "i < 2 ^ n \<Longrightarrow> 0 < n \<Longrightarrow> length (format_b i) \<le> n"
proof (induction i arbitrary: n rule: format_b.induct)
  case (1 i)
  show ?case
  proof (cases "i < 2")
    case True
    then show ?thesis using "1.prems" by (subst format_b.simps) simp
  next
    case False
    then obtain k where k: "n = Suc k" using "1.prems" by (cases n) auto
    with False "1.prems" have "0 < k" by (cases k) auto
    moreover have "i div 2 < 2 ^ k" using "1.prems" k by auto
    ultimately have "length (format_b (i div 2)) \<le> k" using "1.IH" False by simp
    then show ?thesis using False k by (subst format_b.simps) simp
  qed
qed

lemma format_b_bound: "i < 2 ^ length (format_b i)"
proof (induction i rule: format_b.induct)
  case (1 i)
  show ?case
  proof (cases "i < 2")
    case True
    then show ?thesis by (subst format_b.simps) simp
  next
    case False
    then have "i div 2 < 2 ^ length (format_b (i div 2))" using "1.IH" by simp
    then have "i < 2 * 2 ^ length (format_b (i div 2))" by linarith
    then show ?thesis using False by (subst format_b.simps) simp
  qed
qed

lemma format_b_digit:
  "q < length (format_b i) \<Longrightarrow> rev (format_b i) ! q = bit_char ((i div 2 ^ q) mod 2)"
proof (induction i arbitrary: q rule: format_b.induct)
  case (1 i)
  show ?case
  proof (cases "i < 2")
    case True
    then have "format_b i = [bit_char i]" by (subst format_b.simps) simp
    then show ?thesis using "1.prems" True by simp
  next
    case False
    then have eq: "format_b i = format_b (i div 2) @ [bit_char (i mod 2)]"
      by (subst format_b.simps) simp
    show ?thesis
    proof (cases q)
      case 0
      then show ?thesis by (simp add: eq)
    next
      case (Suc p)
      then have "p < length (format_b (i div 2))" using "1.prems" eq by simp
      then have "rev (format_b (i div 2)) ! p = bit_char ((i div 2 div 2 ^ p) mod 2)"
        using "1.IH" False by simp
      then show ?thesis using Suc by (simp add: eq div_mult2_eq)
    qed
  qed
qed

lemma basis_state_of_length:
  "i < 2 ^ n \<Longrightarrow> n \<le> length (basis_state_of (int n) (int i))"
  by (simp add: basis_state_of_def zfill_def)

lemma basis_state_of_nth:
  assumes "i < 2 ^ n" "q < n"
  shows "basis_state_of (int n) (int i) ! q = bit_char ((i div 2 ^ q) mod 2)"
proof -
  let ?s = "format_b i"
  have len: "length ?s \<le> n" using assms format_b_length_le[of i n] by simp
  have bs: "basis_state_of (int n) (int i) = rev ?s @ replicate (n - length ?s) CHR ''0''"
    by (simp add: basis_state_of_def zfill_def)
  show ?thesis
  proof (cases "q < length ?s")
    case True
    then show ?thesis by (simp add: bs nth_append format_b_digit)
  next
    case False
    then have "2 ^ length ?s \<le> (2::nat) ^ q" by (simp add: power_increasing)
    then have "i < 2 ^ q" using format_b_bound[of i] by linarith
    then have "(i div 2 ^ q) mod 2 = 0" by simp
    then show ?thesis using False assms len by (simp add: bs nth_append bit_char_def)
  qed
qed

lemma basis_state_of_one:
  "i < 2 ^ n \<Longrightarrow> q < n \<Longrightarrow> basis_state_of (int n) (int i) ! q = CHR ''1'' \<longleftrightarrow> bit i q"
  by (simp add: basis_state_of_nth bit_char_def bit_iff_odd odd_iff_mod_2_eq_one)

subsection \<open>The loops\<close>

lemma qubit_loop_ok:
  assumes d: "int_truediv_pow2 shots (1 + count_list h 1) = Inr d"
    and i: "i < length result"
    and qs: "\<forall>q\<in>set qs. q < length h \<and> q < length bs"
  shows "qubit_loop h bs shots (int i) (map int qs) result =
     Inr (if \<exists>q\<in>set qs. h ! q = 0 \<and> bs ! q = CHR ''1'' then result[i := 0]
          else result[i := result ! i + int (length (filter (\<lambda>q. h ! q = 1) qs)) * d])"
  using i qs
proof (induction qs arbitrary: result)
  case Nil
  then show ?case by simp
next
  case (Cons q qs)
  then have q: "q < length h" "q < length bs" by simp_all
  show ?case
  proof (cases "h ! q = 0 \<and> bs ! q = CHR ''1''")
    case True
    then show ?thesis using q Cons.prems by (simp add: getitem_nat setitem_nat)
  next
    case nb: False
    show ?thesis
    proof (cases "h ! q = 1")
      case True
      let ?r = "result[i := result ! i + d]"
      have "qubit_loop h bs shots (int i) (map int (q # qs)) result =
            qubit_loop h bs shots (int i) (map int qs) ?r"
        using True q Cons.prems d by (simp add: getitem_nat setitem_nat)
      also have "\<dots> = Inr (if \<exists>q\<in>set qs. h ! q = 0 \<and> bs ! q = CHR ''1'' then ?r[i := 0]
          else ?r[i := ?r ! i + int (length (filter (\<lambda>q. h ! q = 1) qs)) * d])"
        using Cons.prems by (intro Cons.IH) simp_all
      finally show ?thesis using True Cons.prems by (auto simp: algebra_simps)
    next
      case False
      have "qubit_loop h bs shots (int i) (map int (q # qs)) result =
            qubit_loop h bs shots (int i) (map int qs) result"
        using False nb q by (simp add: getitem_nat)
      also have "\<dots> = Inr (if \<exists>q\<in>set qs. h ! q = 0 \<and> bs ! q = CHR ''1'' then result[i := 0]
          else result[i := result ! i + int (length (filter (\<lambda>q. h ! q = 1) qs)) * d])"
        using Cons.prems by (intro Cons.IH) simp_all
      finally show ?thesis using False nb by auto
    qed
  qed
qed

lemma qubit_loop_overflow:
  assumes d: "int_truediv_pow2 shots (1 + count_list h 1) = Inl e"
    and i: "i < length result"
    and qs: "\<forall>q\<in>set qs. q < length h \<and> q < length bs"
    and nb: "\<forall>q\<in>set qs. \<not> (h ! q = 0 \<and> bs ! q = CHR ''1'')"
    and ex: "\<exists>q\<in>set qs. h ! q = 1"
  shows "qubit_loop h bs shots (int i) (map int qs) result = Inl e"
  using qs nb ex
proof (induction qs)
  case Nil
  then show ?case by simp
next
  case (Cons q qs)
  then have q: "q < length h" "q < length bs" by simp_all
  show ?case
  proof (cases "h ! q = 1")
    case True
    then show ?thesis using q d i by (simp add: getitem_nat)
  next
    case False
    then have "qubit_loop h bs shots (int i) (map int (q # qs)) result =
            qubit_loop h bs shots (int i) (map int qs) result"
      using q Cons.prems by (simp add: getitem_nat)
    then show ?thesis using Cons False by simp
  qed
qed

lemma qubit_loop_no_hadamard:
  assumes i: "i < length result"
    and qs: "\<forall>q\<in>set qs. q < length h \<and> q < length bs"
    and no: "\<forall>q\<in>set qs. h ! q \<noteq> 1"
  shows "qubit_loop h bs shots (int i) (map int qs) result =
     Inr (if \<exists>q\<in>set qs. h ! q = 0 \<and> bs ! q = CHR ''1'' then result[i := 0] else result)"
  using qs no
proof (induction qs)
  case Nil
  then show ?case by simp
next
  case (Cons q qs)
  then have q: "q < length h" "q < length bs" by simp_all
  show ?case
  proof (cases "h ! q = 0 \<and> bs ! q = CHR ''1''")
    case True
    then show ?thesis using q i by (simp add: getitem_nat setitem_nat)
  next
    case False
    then have "qubit_loop h bs shots (int i) (map int (q # qs)) result =
            qubit_loop h bs shots (int i) (map int qs) result"
      using q Cons.prems by (simp add: getitem_nat)
    then show ?thesis using Cons False by auto
  qed
qed

lemma py_range_nat: "py_range (int n) = map int [0..<n]"
  by (simp add: py_range_def)

lemma count_list_nth:
  "count_list xs x = length (filter (\<lambda>j. xs ! j = x) [0..<length xs])"
proof (induction xs rule: rev_induct)
  case Nil
  show ?case by simp
next
  case (snoc y xs)
  have "filter (\<lambda>j. (xs @ [y]) ! j = x) [0..<length xs] = filter (\<lambda>j. xs ! j = x) [0..<length xs]"
    by (rule filter_cong) (simp_all add: nth_append)
  then show ?case using snoc by simp
qed

lemma qubit_loop_basis_ok:
  assumes d: "int_truediv_pow2 shots (1 + count_list h 1) = Inr d"
    and h: "length h = n" and i: "i < 2 ^ n" "i < length result"
  shows "qubit_loop h (basis_state_of (int n) (int i)) shots (int i) (py_range (int n)) result =
     Inr (result[i := (if \<exists>q<n. h ! q = 0 \<and> bit i q then 0
                       else result ! i + int (count_list h 1) * d)])"
proof -
  let ?bs = "basis_state_of (int n) (int i)"
  have len: "n \<le> length ?bs" using i(1) by (rule basis_state_of_length)
  have bl: "(\<exists>q\<in>set [0..<n]. h ! q = 0 \<and> ?bs ! q = CHR ''1'') \<longleftrightarrow> (\<exists>q<n. h ! q = 0 \<and> bit i q)"
    using i by (auto simp: basis_state_of_one)
  have cnt: "length (filter (\<lambda>q. h ! q = 1) [0..<n]) = count_list h 1"
    using h by (simp add: count_list_nth)
  have "qubit_loop h ?bs shots (int i) (map int [0..<n]) result =
     Inr (if \<exists>q\<in>set [0..<n]. h ! q = 0 \<and> ?bs ! q = CHR ''1'' then result[i := 0]
          else result[i := result ! i + int (length (filter (\<lambda>q. h ! q = 1) [0..<n])) * d])"
    using d i(2) h len by (intro qubit_loop_ok) auto
  then show ?thesis unfolding bl cnt py_range_nat by auto
qed

lemma state_loop_ok:
  assumes d: "int_truediv_pow2 shots (1 + count_list h 1) = Inr d"
    and h: "length h = n"
  shows "distinct js \<Longrightarrow> \<forall>i\<in>set js. i < 2 ^ n \<and> i < length result \<Longrightarrow>
     \<exists>r. state_loop (int n) h shots (map int js) result = Inr r \<and> length r = length result \<and>
       (\<forall>j<length result. r ! j =
          (if j \<in> set js
           then (if \<exists>q<n. h ! q = 0 \<and> bit j q then 0 else result ! j + int (count_list h 1) * d)
           else result ! j))"
proof (induction js arbitrary: result)
  case Nil
  then show ?case by simp
next
  case (Cons i js)
  let ?v = "if \<exists>q<n. h ! q = 0 \<and> bit i q then 0 else result ! i + int (count_list h 1) * d"
  let ?r = "result[i := ?v]"
  have i: "i < 2 ^ n" "i < length result" "i \<notin> set js" using Cons.prems by simp_all
  have step: "qubit_loop h (basis_state_of (int n) (int i)) shots (int i) (py_range (int n)) result
      = Inr ?r"
    using d h i(1,2) by (rule qubit_loop_basis_ok)
  have "distinct js" "\<forall>i\<in>set js. i < 2 ^ n \<and> i < length ?r" using Cons.prems by simp_all
  from Cons.IH[OF this] obtain r where r: "state_loop (int n) h shots (map int js) ?r = Inr r"
     "length r = length ?r"
     "\<forall>j<length ?r. r ! j =
          (if j \<in> set js
           then (if \<exists>q<n. h ! q = 0 \<and> bit j q then 0 else ?r ! j + int (count_list h 1) * d)
           else ?r ! j)" by blast
  have "state_loop (int n) h shots (map int (i # js)) result = Inr r"
    using step r(1) by simp
  moreover have "length r = length result" using r(2) by simp
  moreover have "\<forall>j<length result. r ! j =
          (if j \<in> set (i # js)
           then (if \<exists>q<n. h ! q = 0 \<and> bit j q then 0 else result ! j + int (count_list h 1) * d)
           else result ! j)"
  proof (intro allI impI)
    fix j assume j: "j < length result"
    show "r ! j = (if j \<in> set (i # js)
           then (if \<exists>q<n. h ! q = 0 \<and> bit j q then 0 else result ! j + int (count_list h 1) * d)
           else result ! j)"
    proof (cases "j = i")
      case True
      then show ?thesis using r(3) j i by auto
    next
      case False
      then show ?thesis using r(3) j i by auto
    qed
  qed
  ultimately show ?case by blast
qed

lemma state_loop_overflow:
  assumes d: "int_truediv_pow2 shots (1 + count_list h 1) = Inl e"
    and h: "length h = n" and ex: "\<exists>q<n. h ! q = 1" and r: "0 < length result"
  shows "state_loop (int n) h shots (py_range (2 ^ n)) result = Inl e"
proof -
  let ?bs = "basis_state_of (int n) (int 0)"
  have len: "n \<le> length ?bs" by (rule basis_state_of_length) simp
  have nb: "\<forall>q\<in>set [0..<n]. \<not> (h ! q = 0 \<and> ?bs ! q = CHR ''1'')"
    using basis_state_of_one[of 0 n] by auto
  have "qubit_loop h ?bs shots (int 0) (map int [0..<n]) result = Inl e"
    using d r h len nb ex by (intro qubit_loop_overflow) auto
  moreover have "py_range (2 ^ n) = int 0 # map int [1..<2 ^ n]"
    by (simp add: py_range_def upt_conv_Cons nat_power_eq)
  ultimately show ?thesis by (simp add: py_range_nat)
qed

lemma replicate_update_same: "(replicate N x)[i := x] = replicate N x"
  by (cases "i < N") (auto simp: list_eq_iff_nth_eq nth_list_update)

lemma state_loop_no_hadamard:
  assumes h: "length h = n" and no: "\<forall>q<n. h ! q \<noteq> 1"
  shows "\<forall>i\<in>set js. i < 2 ^ n \<and> i < N \<Longrightarrow>
     state_loop (int n) h shots (map int js) (replicate N 0) = Inr (replicate N 0)"
proof (induction js)
  case Nil
  show ?case by simp
next
  case (Cons i js)
  let ?bs = "basis_state_of (int n) (int i)"
  have len: "n \<le> length ?bs" using Cons.prems by (intro basis_state_of_length) simp
  have "qubit_loop h ?bs shots (int i) (map int [0..<n]) (replicate N 0) =
     Inr (if \<exists>q\<in>set [0..<n]. h ! q = 0 \<and> ?bs ! q = CHR ''1'' then (replicate N 0)[i := 0]
          else replicate N 0)"
    using Cons.prems h len no by (intro qubit_loop_no_hadamard) auto
  then have "qubit_loop h ?bs shots (int i) (py_range (int n)) (replicate N 0) = Inr (replicate N 0)"
    by (simp add: py_range_nat replicate_update_same)
  then show ?case using Cons by simp
qed

lemma hadamard_loop_replicate:
  assumes "\<forall>q\<in>set qs. 0 \<le> q \<and> q < int n"
  shows "hadamard_loop (replicate n 0) qs = Inr (parities n qs)"
proof -
  have "replicate n (0::int) = map (\<lambda>j. (\<lambda>_. 0::int) j mod 2) [0..<n]"
    by (simp add: map_replicate_const)
  then have "hadamard_loop (replicate n 0) qs =
     Inr (map (\<lambda>j. ((\<lambda>_. 0::int) j + int (count_list qs (int j))) mod 2) [0..<n])"
    using hadamard_loop_parity[OF assms, of "\<lambda>_. 0"] by simp
  then show ?thesis by (simp add: parities_def)
qed

lemma parities_length: "length (parities n qs) = n"
  by (simp add: parities_def)

lemma parities_one: "q < n \<Longrightarrow> parities n qs ! q = 1 \<longleftrightarrow> odd_parity qs q"
  by (simp add: parities_def odd_parity_def odd_iff_mod_2_eq_one) presburger

lemma parities_zero: "q < n \<Longrightarrow> parities n qs ! q = 0 \<longleftrightarrow> \<not> odd_parity qs q"
  by (simp add: parities_def odd_parity_def) presburger

lemma parities_count: "count_list (parities n qs) 1 = length (odd_qubits (int n) qs)"
proof -
  have "filter (\<lambda>j. parities n qs ! j = 1) [0..<n] = filter (odd_parity qs) [0..<n]"
    by (rule filter_cong) (simp_all add: parities_one)
  then show ?thesis by (simp add: count_list_nth parities_length odd_qubits_def)
qed

lemma odd_qubits_empty: "odd_qubits (int n) qs = [] \<longleftrightarrow> (\<forall>q<n. \<not> odd_parity qs q)"
  by (auto simp: odd_qubits_def filter_empty_conv)

lemma parities_blocked: "(\<exists>q<n. parities n qs ! q = 0 \<and> bit i q) \<longleftrightarrow> blocked (int n) qs i"
  by (auto simp: blocked_def parities_zero)

lemma list_repeat_qubits: "n < 60 \<Longrightarrow> list_repeat (int n) = Inr (replicate n 0)"
  by (simp add: list_repeat_def)

lemma pow2_less_60: "(2::int) ^ n < 2 ^ 60 \<longleftrightarrow> n < 60"
  by (rule power_strict_increasing_iff) simp

lemma pow2_ge_63: "(2::int) ^ 63 \<le> 2 ^ n \<longleftrightarrow> 63 \<le> n"
  by (rule power_increasing_iff) simp

lemma list_repeat_states:
  "list_repeat (2 ^ n) =
     (if 63 \<le> n then Inl OverflowError
      else if 60 \<le> n then Inl MemoryError
      else Inr (replicate (2 ^ n) 0))"
proof -
  have p: "(0::int) < 2 ^ n" by simp
  have q: "- (2 ^ 63) < (0::int)" by simp
  have a: "\<not> (2::int) ^ n < - (2 ^ 63)" using p q by linarith
  have b: "(2::int) ^ 60 \<le> 2 ^ n \<longleftrightarrow> 60 \<le> n"
    by (rule power_increasing_iff) simp
  have c: "nat ((2::int) ^ n) = 2 ^ n" by (simp add: nat_power_eq)
  show ?thesis
    unfolding list_repeat_def c using a b pow2_ge_63[of n] by (simp del: power_numeral)
qed

lemma run_hadamard_simulator_returned:
  assumes "run_hadamard_simulator n qs shots = Inr result"
  shows "0 \<le> n \<and> n < 60"
proof -
  from assms obtain zeros where z: "list_repeat n = Inr zeros"
    by (cases "list_repeat n") (simp_all add: run_hadamard_simulator_def)
  from assms z obtain h where h: "hadamard_loop zeros qs = Inr h"
    by (cases "hadamard_loop zeros qs") (simp_all add: run_hadamard_simulator_def)
  from assms z h have n: "0 \<le> n"
    by (cases "n < 0") (simp_all add: run_hadamard_simulator_def)
  from assms z h n obtain zeros' where "list_repeat (2 ^ nat n) = Inr zeros'"
    by (cases "list_repeat (2 ^ nat n)") (simp_all add: run_hadamard_simulator_def)
  then have "nat n < 60" by (simp add: list_repeat_states split: if_splits)
  with n show ?thesis by simp
qed

lemma run_hadamard_simulator_eq:
  assumes "\<forall>q\<in>set qs. 0 \<le> q \<and> q < int n" and small: "n < 60"
  shows "run_hadamard_simulator (int n) qs shots =
    (if odd_qubits (int n) qs = [] then Inr (replicate (2 ^ n) 0)
     else case int_truediv_pow2 shots (1 + length (odd_qubits (int n) qs)) of
            Inl e \<Rightarrow> Inl e
          | Inr d \<Rightarrow>
              Inr (map (\<lambda>i. if blocked (int n) qs i then 0
                             else int (length (odd_qubits (int n) qs)) * d) [0..<2 ^ n]))"
proof -
  let ?h = "parities n qs"
  let ?k = "length (odd_qubits (int n) qs)"
  have run: "run_hadamard_simulator (int n) qs shots =
      state_loop (int n) ?h shots (py_range (2 ^ n)) (replicate (2 ^ n) 0)"
    using small
    by (simp add: run_hadamard_simulator_def list_repeat_qubits list_repeat_states
        hadamard_loop_replicate[OF assms(1)])
  have rng: "py_range (2 ^ n) = map int [0..<2 ^ n]"
    by (simp add: py_range_def nat_power_eq)
  show ?thesis
  proof (cases "odd_qubits (int n) qs = []")
    case True
    then have "\<forall>q<n. ?h ! q \<noteq> 1" by (simp add: odd_qubits_empty parities_one)
    then have "state_loop (int n) ?h shots (map int [0..<2 ^ n]) (replicate (2 ^ n) 0) =
        Inr (replicate (2 ^ n) 0)"
      by (intro state_loop_no_hadamard) (simp_all add: parities_length)
    then show ?thesis using True run rng by simp
  next
    case False
    then have ex: "\<exists>q<n. ?h ! q = 1" by (auto simp: odd_qubits_empty parities_one)
    show ?thesis
    proof (cases "int_truediv_pow2 shots (1 + ?k)")
      case (Inl e)
      then have "int_truediv_pow2 shots (1 + count_list ?h 1) = Inl e"
        by (simp add: parities_count)
      then have "state_loop (int n) ?h shots (py_range (2 ^ n)) (replicate (2 ^ n) 0) = Inl e"
        using ex by (intro state_loop_overflow) (simp_all add: parities_length)
      then show ?thesis using False Inl run by simp
    next
      case (Inr d)
      then have d: "int_truediv_pow2 shots (1 + count_list ?h 1) = Inr d"
        by (simp add: parities_count)
      have "distinct [0..<(2::nat) ^ n]"
        "\<forall>i\<in>set [0..<(2::nat) ^ n]. i < 2 ^ n \<and> i < length (replicate ((2::nat) ^ n) (0::int))"
        by simp_all
      from state_loop_ok[OF d parities_length this]
      obtain r where r: "state_loop (int n) ?h shots (map int [0..<2 ^ n]) (replicate (2 ^ n) 0) = Inr r"
        "length r = 2 ^ n"
        "\<forall>j<2 ^ n. r ! j = (if blocked (int n) qs j then 0 else int ?k * d)"
        by (auto simp: parities_blocked parities_count)
      have "r = map (\<lambda>i. if blocked (int n) qs i then 0 else int ?k * d) [0..<2 ^ n]"
        using r(2,3) by (simp add: list_eq_iff_nth_eq)
      then show ?thesis using False Inr run rng r(1) by simp
    qed
  qed
qed

subsection \<open>The division\<close>

lemma bit_length_bound: "a < 2 ^ bit_length a"
proof (induction a rule: bit_length.induct)
  case (1 a)
  show ?case
  proof (cases "a = 0")
    case True
    then show ?thesis by simp
  next
    case False
    then have "a div 2 < 2 ^ bit_length (a div 2)" using "1.IH" by simp
    then have "a < 2 * 2 ^ bit_length (a div 2)" by linarith
    then show ?thesis using False by (subst bit_length.simps) simp
  qed
qed

lemma bit_length_le: "a < 2 ^ n \<Longrightarrow> bit_length a \<le> n"
proof (induction a arbitrary: n rule: bit_length.induct)
  case (1 a)
  show ?case
  proof (cases "a = 0")
    case True
    then show ?thesis by (subst bit_length.simps) simp
  next
    case False
    then obtain k where k: "n = Suc k" using "1.prems" by (cases n) auto
    then have "a div 2 < 2 ^ k" using "1.prems" by auto
    then have "bit_length (a div 2) \<le> k" using "1.IH" False by simp
    then show ?thesis using False k by (subst bit_length.simps) simp
  qed
qed

lemma round53_le: "round53 a \<le> 2 ^ bit_length a"
proof -
  define P :: nat where "P = 53"
  define s where "s = bit_length a - P"
  define q where "q = a div 2 ^ s"
  have r: "round53 a = q * 2 ^ s \<or> round53 a = (q + 1) * 2 ^ s"
    unfolding round53_def Let_def s_def q_def P_def by (rule if_split[THEN iffD2]) blast
  have a: "a < 2 ^ bit_length a" by (rule bit_length_bound)
  have "q * 2 ^ s \<le> a" unfolding q_def by (rule div_times_less_eq_dividend)
  then have lo: "q * 2 ^ s \<le> 2 ^ bit_length a" using a by linarith
  have hi: "(q + 1) * 2 ^ s \<le> 2 ^ bit_length a"
  proof (cases "s = 0")
    case True
    then have "(q + 1) * 2 ^ s = Suc a" by (simp add: q_def)
    then show ?thesis using a by simp
  next
    case False
    then have L: "bit_length a = P + s" by (simp add: s_def)
    have "a < 2 ^ P * 2 ^ s" using a unfolding L power_add .
    then have "q < 2 ^ P" unfolding q_def by (rule less_mult_imp_div_less)
    then have "q + 1 \<le> 2 ^ P" by simp
    then have "(q + 1) * 2 ^ s \<le> 2 ^ P * 2 ^ s" by (rule mult_le_mono1)
    then show ?thesis unfolding L power_add .
  qed
  from r lo hi show ?thesis by auto
qed

lemma round53_small: "a < 2 ^ 53 \<Longrightarrow> round53 a = a"
  using bit_length_le[of a 53] by (simp add: round53_def)

lemma bit_length_pred_pow2: "bit_length (2 ^ n - 1) = n"
proof -
  define b where "b = bit_length (2 ^ n - 1)"
  have "(2::nat) ^ n - 1 < 2 ^ n" by simp
  then have le: "b \<le> n" unfolding b_def by (rule bit_length_le)
  have lt: "(2::nat) ^ n - 1 < 2 ^ b" unfolding b_def by (rule bit_length_bound)
  have "\<not> b < n"
  proof
    assume "b < n"
    then have "Suc b \<le> n" by simp
    then have "(2::nat) ^ Suc b \<le> 2 ^ n" by (intro power_increasing) simp_all
    then have "2 * (2::nat) ^ b \<le> 2 ^ n" by simp
    moreover have "(0::nat) < 2 ^ b" by simp
    ultimately show False using lt by linarith
  qed
  with le show ?thesis unfolding b_def by simp
qed

lemma round53_pred_pow2:
  assumes "53 < n"
  shows "round53 (2 ^ n - 1) = 2 ^ n"
proof -
  define P :: nat where "P = 53"
  define s where "s = n - P"
  define X :: nat where "X = 2 ^ s"
  define Q :: nat where "Q = 2 ^ P - 1"
  have n: "n = P + s" "0 < s" using assms by (simp_all add: s_def P_def)
  have bl: "bit_length (2 ^ n - 1) - P = s" using bit_length_pred_pow2[of n] n by simp
  have X: "2 \<le> X" using n(2) unfolding X_def by (cases s) simp_all
  have Q1: "Q + 1 = 2 ^ P" unfolding Q_def by simp
  have pw: "(2::nat) ^ n = (Q + 1) * X" unfolding Q1 X_def n(1) power_add ..
  have dec: "(2::nat) ^ n - 1 = Q * X + (X - 1)" unfolding pw using X by (simp add: algebra_simps)
  have r0: "(X - 1) div X = 0" "(X - 1) mod X = X - 1" using X by simp_all
  have q: "((2::nat) ^ n - 1) div X = Q"
    unfolding dec using div_mult_self3[of X Q "X - 1"] X r0 by simp
  have r: "((2::nat) ^ n - 1) mod X = X - 1"
    unfolding dec using mod_mult_self3[of Q X "X - 1"] r0 by simp
  have odd: "odd Q" unfolding Q_def P_def by simp
  have up: "X < 2 * (X - 1) \<or> (2 * (X - 1) = X \<and> odd Q)" using X odd by auto
  have "round53 (2 ^ n - 1) =
     (let s = bit_length (2 ^ n - 1) - P; q = (2 ^ n - 1) div 2 ^ s;
          r = ((2::nat) ^ n - 1) mod 2 ^ s
      in if 2 ^ s < 2 * r \<or> (2 * r = 2 ^ s \<and> odd q) then (q + 1) * 2 ^ s else q * 2 ^ s)"
    unfolding round53_def P_def ..
  also have "\<dots> = (if X < 2 * (X - 1) \<or> (2 * (X - 1) = X \<and> odd Q) then (Q + 1) * X else Q * X)"
    unfolding Let_def bl X_def[symmetric] q r ..
  also have "\<dots> = (Q + 1) * X" using up by simp
  also have "\<dots> = 2 ^ n" unfolding pw ..
  finally show ?thesis .
qed

lemma round53_rounds_up: "round53 (nat \<bar>2 ^ 1026 - 1 :: int\<bar>) = 2 ^ 1026"
proof -
  define N :: nat where "N = 1026"
  have a: "nat \<bar>2 ^ N - 1 :: int\<bar> = 2 ^ N - 1"
  proof -
    have "(1::int) \<le> 2 ^ N" by simp
    then have "\<bar>2 ^ N - 1 :: int\<bar> = 2 ^ N - 1" by linarith
    then show ?thesis by (simp add: nat_diff_distrib nat_power_eq)
  qed
  have "round53 (2 ^ N - 1) = 2 ^ N" by (rule round53_pred_pow2) (simp add: N_def)
  then have "round53 (nat \<bar>2 ^ N - 1 :: int\<bar>) = 2 ^ N" unfolding a .
  then show ?thesis unfolding N_def .
qed

lemma int_truediv_pow2_returns:
  assumes "\<bar>shots\<bar> < 2 ^ 1024" "0 < m"
  shows "\<exists>d. int_truediv_pow2 shots m = Inr d"
proof -
  define M :: nat where "M = 1024"
  have "nat \<bar>shots\<bar> < 2 ^ M" using assms(1) by (simp add: nat_less_iff M_def)
  then have "bit_length (nat \<bar>shots\<bar>) \<le> M" by (rule bit_length_le)
  then have "(2::nat) ^ bit_length (nat \<bar>shots\<bar>) \<le> 2 ^ M" by (intro power_increasing) simp_all
  then have "round53 (nat \<bar>shots\<bar>) \<le> 2 ^ M" using round53_le le_trans by blast
  moreover have "(2::nat) ^ M < 2 ^ (M + m)" using assms(2) by simp
  ultimately have "\<not> 2 ^ (M + m) \<le> round53 (nat \<bar>shots\<bar>)" by linarith
  then show ?thesis unfolding int_truediv_pow2_def Let_def M_def by simp
qed

lemma int_truediv_pow2_small:
  assumes "0 \<le> shots" "shots < 2 ^ 53"
  shows "int_truediv_pow2 shots m = Inr (shots div 2 ^ m)"
proof -
  define P :: nat where "P = 53"
  define M :: nat where "M = 1024"
  have a: "nat \<bar>shots\<bar> < 2 ^ P" using assms by (simp add: nat_less_iff P_def)
  then have r: "round53 (nat \<bar>shots\<bar>) = nat shots"
    using assms round53_small[of "nat \<bar>shots\<bar>"] by (simp add: P_def)
  have "(2::nat) ^ P \<le> 2 ^ (M + m)" by (intro power_increasing) (simp_all add: P_def M_def)
  moreover have "nat shots < 2 ^ P" using a assms(1) by simp
  ultimately have "nat shots < 2 ^ (M + m)" by (rule less_le_trans[rotated])
  then have nov: "\<not> 2 ^ (M + m) \<le> nat shots" by simp
  have "sgn shots * int (nat shots div 2 ^ m) = shots div 2 ^ m"
    using assms by (cases "shots = 0") (simp_all add: zdiv_int)
  then show ?thesis using nov unfolding int_truediv_pow2_def Let_def r M_def by simp
qed

lemma int_truediv_pow2_error:
  "int_truediv_pow2 shots m = Inl e \<Longrightarrow> e = OverflowError \<and> 2 ^ (1024 + m) \<le> round53 (nat \<bar>shots\<bar>)"
  by (auto simp: int_truediv_pow2_def Let_def split: if_splits)

subsection \<open>The function on valid input\<close>

lemma run_hadamard_simulator_valid:
  assumes "valid_input n qs" and small: "n < 60"
  shows "run_hadamard_simulator n qs shots =
    (if odd_qubits n qs = [] then Inr (replicate (2 ^ nat n) 0)
     else case int_truediv_pow2 shots (1 + length (odd_qubits n qs)) of
            Inl e \<Rightarrow> Inl e
          | Inr d \<Rightarrow>
              Inr (map (\<lambda>i. if blocked n qs i then 0 else int (length (odd_qubits n qs)) * d)
                     [0..<2 ^ nat n]))"
proof -
  from assms obtain m where m: "n = int m"
    using nonneg_int_cases by (auto simp: valid_input_def)
  have qs: "\<forall>q\<in>set qs. 0 \<le> q \<and> q < int m" using assms by (simp add: valid_input_def m)
  have "m < 60" using small by (simp add: m)
  from run_hadamard_simulator_eq[OF qs this, of shots] show ?thesis unfolding m nat_int .
qed

lemma run_hadamard_simulator_large:
  assumes "valid_input n qs" "60 \<le> n"
  shows "run_hadamard_simulator n qs shots = Inl OverflowError \<or>
         run_hadamard_simulator n qs shots = Inl MemoryError"
proof -
  from assms(1) obtain m where m: "n = int m"
    using nonneg_int_cases by (auto simp: valid_input_def)
  have qs: "\<forall>q\<in>set qs. 0 \<le> q \<and> q < int m" using assms(1) by (simp add: valid_input_def m)
  have large: "60 \<le> m" using assms(2) by (simp add: m)
  show ?thesis
  proof (cases "list_repeat n")
    case (Inl e)
    then have "e = OverflowError \<or> e = MemoryError"
      by (auto simp: list_repeat_def split: if_splits)
    then show ?thesis using Inl by (auto simp: run_hadamard_simulator_def)
  next
    case (Inr zeros)
    then have "zeros = replicate m 0" by (auto simp: list_repeat_def m split: if_splits)
    then have "run_hadamard_simulator n qs shots =
        (case list_repeat (2 ^ m) of Inl e \<Rightarrow> Inl e
         | Inr result \<Rightarrow>
             state_loop (int m) (parities m qs) shots (py_range (2 ^ nat (int m))) result)"
      using Inr by (simp add: run_hadamard_simulator_def hadamard_loop_replicate[OF qs] m)
    then show ?thesis using large by (simp add: list_repeat_states)
  qed
qed

lemma run_hadamard_simulator_small_shots:
  assumes "valid_input n qs" "0 \<le> shots" "shots < 2 ^ 53" "n < 60"
  shows "run_hadamard_simulator n qs shots =
     Inr (map (\<lambda>i. if blocked n qs i then 0
                    else int (length (odd_qubits n qs)) * (shots div 2 ^ (1 + length (odd_qubits n qs))))
            [0..<2 ^ nat n])"
proof (cases "odd_qubits n qs = []")
  case True
  have "replicate (2 ^ nat n) (0::int) = map (\<lambda>i. 0) [0..<2 ^ nat n]"
    by (simp add: map_replicate_const)
  then show ?thesis using True by (simp add: run_hadamard_simulator_valid[OF assms(1,4)])
next
  case False
  then show ?thesis
    by (simp add: run_hadamard_simulator_valid[OF assms(1,4)] int_truediv_pow2_small[OF assms(2,3)])
qed


subsection \<open>Evaluation on concrete arguments\<close>

lemma replicate_numeral: "replicate (numeral k) x = x # replicate (pred_numeral k) x"
  by (simp add: numeral_eq_Suc)

lemma list_update_numeral: "(x # xs)[numeral k := y] = x # xs[pred_numeral k := y]"
  by (simp add: numeral_eq_Suc)

lemma upt_zero_numeral: "[0..<numeral k] = 0 # [Suc 0..<numeral k]"
  by (simp add: upt_conv_Cons)

lemma upt_one_numeral:
  "[Suc 0..<numeral k] = (if Suc 0 < numeral k then Suc 0 # [2..<numeral k] else [])"
  by (subst upt_rec) (simp add: numeral_2_eq_2)

lemmas run_eval = run_hadamard_simulator_def list_repeat_def py_range_def getitem_def setitem_def py_index_def
  int_truediv_pow2_def round53_def bit_length.simps basis_state_of_def zfill_def format_b.simps
  bit_char_def Let_def replicate_numeral list_update_numeral upt_zero_numeral upt_one_numeral

lemma notebook_example:
  "run_hadamard_simulator 4 [3, 1, 3, 2] 1024 =
     Inr [256, 0, 256, 0, 256, 0, 256, 0, 0, 0, 0, 0, 0, 0, 0, 0]"
  by (simp add: run_eval)

lemma notebook_example_valid: "valid_input 4 [3, 1, 3, 2]"
  by (simp add: valid_input_def)

lemma bit_length_pow2: "bit_length (2 ^ n) = Suc n"
  by (induction n) (simp_all add: bit_length.simps)

lemma round53_pow2: "round53 (2 ^ n) = 2 ^ n"
proof -
  define s where "s = Suc n - 53"
  have "s \<le> n" by (simp add: s_def)
  then have d: "(2::nat) ^ s dvd 2 ^ n" by (rule le_imp_power_dvd)
  then have "(2::nat) ^ n mod 2 ^ s = 0" by simp
  moreover have "(2::nat) ^ n div 2 ^ s * 2 ^ s = 2 ^ n" using d by simp
  ultimately show ?thesis unfolding round53_def bit_length_pow2 Let_def s_def[symmetric] by simp
qed

lemma int_truediv_pow2_huge:
  assumes "1024 + m \<le> n"
  shows "int_truediv_pow2 (2 ^ n) m = Inl OverflowError"
proof -
  have a: "nat \<bar>(2::int) ^ n\<bar> = 2 ^ n" by (simp add: nat_power_eq)
  have "(2::nat) ^ (1024 + m) \<le> 2 ^ n" using assms by (intro power_increasing) simp_all
  then show ?thesis unfolding int_truediv_pow2_def Let_def a round53_pow2 by simp
qed

section \<open>The claims about the simulator\<close>

text \<open>
  Claim C1: for \<open>number_of_qubits \<ge> 1\<close>, qubits in range and \<open>shots \<ge> 0\<close>, the
  simulator returns \<open>shots div 2 ^ k\<close> on each basis state whose 1-bits all lie on
  odd-parity qubits and \<open>0\<close> on the others, \<open>k\<close> being the number of odd-parity qubits.
  The code does not: it adds \<open>int(shots / 2 ^ (1 + k))\<close> once for every odd-parity
  qubit, which gives \<open>k * (shots div 2 ^ (1 + k))\<close> (lemma
  \<open>run_hadamard_simulator_small_shots\<close>).  For one Hadamard gate on one qubit and 1024
  shots it returns 256 and 256, where the two basis states share the 1024 shots as 512
  and 512; with no gate at all and one shot it returns no shot anywhere.
\<close>

theorem run_hadamard_simulator_loses_shots:
  "run_hadamard_simulator 1 [0] 1024 = Inr [256, 256] \<and>
   expected_counts 1 [0] 1024 = [512, 512] \<and>
   run_hadamard_simulator 1 [] 1 = Inr [0, 0] \<and>
   expected_counts 1 [] 1 = [1, 0]"
proof -
  have "run_hadamard_simulator 1 [0] 1024 = Inr [256, 256]"
    by (simp add: run_eval)
  moreover have "expected_counts 1 [0] 1024 = [512, 512]"
    by (simp add: expected_counts_def blocked_def odd_qubits_def odd_parity_def upt_zero_numeral
        upt_one_numeral bit_iff_odd)
  moreover have "run_hadamard_simulator 1 [] 1 = Inr [0, 0]"
    by (simp add: run_eval)
  moreover have "expected_counts 1 [] 1 = [1, 0]"
    by (simp add: expected_counts_def blocked_def odd_qubits_def odd_parity_def upt_zero_numeral
        upt_one_numeral bit_iff_odd)
  ultimately show ?thesis by simp
qed



text \<open>
  Claim C8: on valid input, a basis state with a 1-bit on a qubit that occurs an even
  number of times in \<open>list_of_qubits\<close> (zero times included) has the count 0 in the
  returned list.
\<close>

theorem run_hadamard_simulator_even_qubit_zero:
  assumes "valid_input n qs" "run_hadamard_simulator n qs shots = Inr result"
    and "i < 2 ^ nat n" "q < nat n" "bit i q" "\<not> odd_parity qs q"
  shows "result ! i = 0"
proof -
  have b: "blocked n qs i" using assms(4,5,6) by (auto simp: blocked_def)
  from run_hadamard_simulator_returned[OF assms(2)] have small: "n < 60" by simp
  note eq = run_hadamard_simulator_valid[OF assms(1) small, of shots]
  show ?thesis
  proof (cases "odd_qubits n qs = []")
    case True
    then have "result = replicate (2 ^ nat n) 0"
      using assms(2) eq by simp
    then show ?thesis using assms(3) by simp
  next
    case False
    then obtain d where
      "result = map (\<lambda>i. if blocked n qs i then 0 else int (length (odd_qubits n qs)) * d)
                  [0..<2 ^ nat n]"
      using assms(2) eq by (auto split: sum.splits)
    then show ?thesis using assms(3) b by simp
  qed
qed

theorem run_hadamard_simulator_even_qubit_zero_witness:
  "valid_input 4 [3, 1, 3, 2] \<and>
   run_hadamard_simulator 4 [3, 1, 3, 2] 1024 =
     Inr [256, 0, 256, 0, 256, 0, 256, 0, 0, 0, 0, 0, 0, 0, 0, 0] \<and>
   (10::nat) < 2 ^ nat 4 \<and> (3::nat) < nat 4 \<and> bit (10::nat) (3::nat) \<and>
   \<not> odd_parity [3, 1, 3, 2] 3 \<and>
   [256, 0, 256, 0, 256, 0, 256, 0, 0, 0, 0, 0, 0, 0, 0, 0 :: int] ! 10 = 0"
proof -
  have h: "(10::nat) < 2 ^ nat 4" "(3::nat) < nat 4" "bit (10::nat) (3::nat)"
    "\<not> odd_parity [3, 1, 3, 2] 3"
    by (simp_all add: odd_parity_def bit_iff_odd)
  from run_hadamard_simulator_even_qubit_zero[OF notebook_example_valid notebook_example h]
  show ?thesis using notebook_example_valid notebook_example h by simp
qed

text \<open>
  Claim C9: for a number of qubits that is not negative and qubit indices in range, no
  list access of \<^verbatim>\<open>run_hadamard_simulator\<close> is out of bounds and the function returns
  without raising.  The second half fails in two ways.  For a number of shots beyond
  the range of a float, \<^verbatim>\<open>shots/(2**2)\<close> raises OverflowError (one Hadamard gate,
  \<open>shots = 2 ^ 1100\<close>).  For 64 qubits, with no gate and one shot,
  \<^verbatim>\<open>[0]*(2**number_of_qubits)\<close> raises OverflowError, and for 62 qubits MemoryError.
\<close>

theorem run_hadamard_simulator_overflow_counterexample:
  "valid_input 1 [0] \<and> run_hadamard_simulator 1 [0] (2 ^ 1100) = Inl OverflowError \<and>
   valid_input 64 [] \<and> run_hadamard_simulator 64 [] 1 = Inl OverflowError \<and>
   valid_input 62 [] \<and> run_hadamard_simulator 62 [] 1 = Inl MemoryError"
proof -
  have v: "valid_input 1 [0]" by (simp add: valid_input_def)
  have k: "odd_qubits 1 [0] = [0]" by (simp add: odd_qubits_def odd_parity_def)
  have huge: "int_truediv_pow2 (2 ^ 1100) (1 + length (odd_qubits 1 [0])) = Inl OverflowError"
    by (rule int_truediv_pow2_huge) (simp add: k)
  have s1: "(1::int) < 60" by simp
  have a: "run_hadamard_simulator 1 [0] (2 ^ 1100) = Inl OverflowError"
    unfolding run_hadamard_simulator_valid[OF v s1] huge using k by simp
  have v64: "valid_input 64 []" and v62: "valid_input 62 []" by (simp_all add: valid_input_def)
  have b: "run_hadamard_simulator 64 [] 1 = Inl OverflowError"
    by (simp add: run_hadamard_simulator_def list_repeat_def)
  have c: "run_hadamard_simulator 62 [] 1 = Inl MemoryError"
    by (simp add: run_hadamard_simulator_def list_repeat_def)
  from v a v64 b v62 c show ?thesis by blast
qed

text \<open>
  Claim C9, amended: under the same precondition no list access is out of bounds (the
  function never raises IndexError).  For at most 30 qubits (the number that the
  backend's configuration declares) and a number of shots of magnitude below
  \<open>2 ^ 1024\<close> the function returns without raising; for at most 30 qubits it raises
  exactly when some qubit has odd parity and the quotient does not fit a float, and
  then it raises OverflowError.  (A list of up to \<open>2 ^ 30\<close> counts is taken to fit the
  memory of the machine.)
\<close>

theorem run_hadamard_simulator_in_bounds:
  assumes "valid_input n qs"
  shows "run_hadamard_simulator n qs shots \<noteq> Inl IndexError \<and>
     (n \<le> 30 \<and> \<bar>shots\<bar> < 2 ^ 1024 \<longrightarrow>
        (\<exists>result. run_hadamard_simulator n qs shots = Inr result)) \<and>
     (n \<le> 30 \<longrightarrow>
        (\<forall>e. run_hadamard_simulator n qs shots = Inl e \<longleftrightarrow>
           e = OverflowError \<and> odd_qubits n qs \<noteq> [] \<and>
           2 ^ (1025 + length (odd_qubits n qs)) \<le> round53 (nat \<bar>shots\<bar>)))"
proof (cases "n < 60")
  case False
  then have "run_hadamard_simulator n qs shots = Inl OverflowError \<or>
      run_hadamard_simulator n qs shots = Inl MemoryError"
    using run_hadamard_simulator_large[OF assms, of shots] by simp
  then show ?thesis using False by auto
next
  case small: True
  let ?k = "length (odd_qubits n qs)"
  note eq = run_hadamard_simulator_valid[OF assms small, of shots]
  have err: "run_hadamard_simulator n qs shots = Inl e \<longleftrightarrow>
          e = OverflowError \<and> odd_qubits n qs \<noteq> [] \<and> 2 ^ (1025 + ?k) \<le> round53 (nat \<bar>shots\<bar>)" for e
  proof (cases "odd_qubits n qs = []")
    case True
    then show ?thesis using eq by simp
  next
    case False
    have "int_truediv_pow2 shots (1 + ?k) = Inl e \<longleftrightarrow>
        e = OverflowError \<and> 2 ^ (1024 + (1 + ?k)) \<le> round53 (nat \<bar>shots\<bar>)"
      unfolding int_truediv_pow2_def Let_def by auto
    moreover have "1024 + (1 + ?k) = 1025 + ?k" by simp
    ultimately show ?thesis using False eq by (auto split: sum.splits)
  qed
  have "\<exists>result. run_hadamard_simulator n qs shots = Inr result" if sh: "\<bar>shots\<bar> < 2 ^ 1024"
  proof -
    obtain d where "int_truediv_pow2 shots (1 + ?k) = Inr d"
      using int_truediv_pow2_returns[OF sh, of "1 + ?k"] by auto
    then show ?thesis using eq by simp
  qed
  then show ?thesis using err by blast
qed

theorem run_hadamard_simulator_in_bounds_witness:
  "valid_input 4 [3, 1, 3, 2] \<and> (4::int) \<le> 30 \<and> \<bar>1024::int\<bar> < 2 ^ 1024 \<and>
   run_hadamard_simulator 4 [3, 1, 3, 2] 1024 \<noteq> Inl IndexError \<and>
   (\<exists>result. run_hadamard_simulator 4 [3, 1, 3, 2] 1024 = Inr result) \<and>
   valid_input 1 [0] \<and> (1::int) \<le> 30 \<and> \<bar>2 ^ 60 - 1 :: int\<bar> < 2 ^ 1024 \<and>
   (\<exists>result. run_hadamard_simulator 1 [0] (2 ^ 60 - 1) = Inr result) \<and>
   run_hadamard_simulator 1 [0] (2 ^ 60 - 1) = Inr [2 ^ 58, 2 ^ 58] \<and>
   (2 ^ 60 - 1 :: int) div 2 ^ 2 = 2 ^ 58 - 1 \<and>
   run_hadamard_simulator 1 [0] (2 ^ 1026 - 1) = Inl OverflowError \<and>
   (2 ^ 1026 - 1 :: int) div 2 ^ 2 < 2 ^ 1024"
proof -
  have s: "(4::int) \<le> 30" "\<bar>1024::int\<bar> < 2 ^ 1024" by simp_all
  from run_hadamard_simulator_in_bounds[OF notebook_example_valid, of 1024] s
  have a: "run_hadamard_simulator 4 [3, 1, 3, 2] 1024 \<noteq> Inl IndexError"
    "\<exists>result. run_hadamard_simulator 4 [3, 1, 3, 2] 1024 = Inr result"
    by blast+
  have v: "valid_input 1 [0]" by (simp add: valid_input_def)
  have t: "(1::int) \<le> 30" "\<bar>2 ^ 60 - 1 :: int\<bar> < 2 ^ 1024" by simp_all
  from run_hadamard_simulator_in_bounds[OF v, of "2 ^ 60 - 1"] t
  have b: "\<exists>result. run_hadamard_simulator 1 [0] (2 ^ 60 - 1) = Inr result"
    by blast
  have c: "run_hadamard_simulator 1 [0] (2 ^ 60 - 1) = Inr [2 ^ 58, 2 ^ 58]"
    by (simp add: run_eval)
  have d: "(2 ^ 60 - 1 :: int) div 2 ^ 2 = 2 ^ 58 - 1" by simp
  have k: "odd_qubits 1 [0] \<noteq> []" "1025 + length (odd_qubits 1 [0]) = 1026"
    by (simp_all add: odd_qubits_def odd_parity_def)
  have "(2::nat) ^ (1025 + length (odd_qubits 1 [0])) \<le> round53 (nat \<bar>2 ^ 1026 - 1 :: int\<bar>)"
    unfolding k(2) round53_rounds_up ..
  with run_hadamard_simulator_in_bounds[OF v, of "2 ^ 1026 - 1"] t(1) k(1)
  have e: "run_hadamard_simulator 1 [0] (2 ^ 1026 - 1) = Inl OverflowError"
    by blast
  have f: "(2 ^ 1026 - 1 :: int) div 2 ^ 2 < 2 ^ 1024" by simp
  from notebook_example_valid s a v t b c d e f show ?thesis by blast
qed

section \<open>Properties of the simulator on a store\<close>

lemma getitem_setitem:
  "getitem xs i = Inr b \<Longrightarrow> \<exists>j<length xs. py_index (length xs) i = Inr j \<and> b = xs ! j \<and>
     setitem xs i v = Inr (xs[j := v])"
  by (auto simp: getitem_def setitem_def py_index_def Let_def split: sum.splits if_splits)

lemma getitem_error_setitem: "getitem xs i = Inl e \<Longrightarrow> setitem xs i v = Inl e"
  by (auto simp: getitem_def setitem_def split: sum.splits)

lemma hadamard_loop_st_sim:
  "hl < length s \<Longrightarrow>
   \<exists>h'. snd (hadamard_loop_st s hl qs) = s[hl := h'] \<and>
     (case hadamard_loop (s ! hl) qs of
        Inl e \<Rightarrow> fst (hadamard_loop_st s hl qs) = Some e
      | Inr h \<Rightarrow> fst (hadamard_loop_st s hl qs) = None \<and> h' = h)"
proof (induction qs arbitrary: s)
  case Nil
  then show ?case by (intro exI[of _ "s ! hl"]) simp
next
  case (Cons q qs)
  show ?case
  proof (cases "getitem (s ! hl) q")
    case (Inl e)
    then show ?thesis by (intro exI[of _ "s ! hl"]) (simp add: load_item_def)
  next
    case (Inr b)
    let ?v = "(1 + b) mod 2"
    from getitem_setitem[OF Inr, of ?v] obtain xs where xs: "setitem (s ! hl) q ?v = Inr xs"
      by blast
    let ?s = "s[hl := xs]"
    have st: "hadamard_loop_st s hl (q # qs) = hadamard_loop_st ?s hl qs"
      using Inr xs by (simp add: load_item_def store_item_def)
    have pu: "hadamard_loop (s ! hl) (q # qs) = hadamard_loop xs qs"
      using Inr xs by simp
    have "hl < length ?s" using Cons.prems by simp
    from Cons.IH[OF this] obtain h' where h': "snd (hadamard_loop_st ?s hl qs) = ?s[hl := h']"
      "case hadamard_loop (?s ! hl) qs of
        Inl e \<Rightarrow> fst (hadamard_loop_st ?s hl qs) = Some e
      | Inr h \<Rightarrow> fst (hadamard_loop_st ?s hl qs) = None \<and> h' = h"
      by blast
    have "?s ! hl = xs" using Cons.prems by simp
    then show ?thesis unfolding st pu using h' by (intro exI[of _ h']) simp
  qed
qed

lemma qubit_loop_st_sim:
  "hl < length s \<Longrightarrow> res < length s \<Longrightarrow> hl \<noteq> res \<Longrightarrow>
   \<exists>r'. snd (qubit_loop_st s hl bs shots res i qs) = s[res := r'] \<and>
     (case qubit_loop (s ! hl) bs shots i qs (s ! res) of
        Inl e \<Rightarrow> fst (qubit_loop_st s hl bs shots res i qs) = Some e
      | Inr r \<Rightarrow> fst (qubit_loop_st s hl bs shots res i qs) = None \<and> r' = r)"
proof (induction qs arbitrary: s)
  case Nil
  then show ?case by (intro exI[of _ "s ! res"]) simp
next
  case (Cons q qs)
  note same = exI[of _ "s ! res"]
  show ?case
  proof (cases "getitem (s ! hl) q")
    case (Inl e)
    then show ?thesis by (intro same) (simp add: load_item_def)
  next
    case hv: (Inr h)
    show ?thesis
    proof (cases "if h = 0 then getitem bs q else Inr CHR ''0''")
      case (Inl e)
      then show ?thesis using hv by (intro same) (simp add: load_item_def)
    next
      case c: (Inr c)
      show ?thesis
      proof (cases "h = 0 \<and> c = CHR ''1''")
        case True
        show ?thesis
        proof (cases "setitem (s ! res) i 0")
          case (Inl e)
          then show ?thesis using hv c True
            by (intro same) (simp add: load_item_def store_item_def)
        next
          case (Inr xs)
          then show ?thesis using hv c True
            by (intro exI[of _ xs]) (simp add: load_item_def store_item_def)
        qed
      next
        case nb: False
        show ?thesis
        proof (cases "h = 1")
          case False
          have st: "qubit_loop_st s hl bs shots res i (q # qs) = qubit_loop_st s hl bs shots res i qs"
            using hv c nb False by (auto simp: load_item_def)
          have pu: "qubit_loop (s ! hl) bs shots i (q # qs) (s ! res) =
                    qubit_loop (s ! hl) bs shots i qs (s ! res)"
            using hv c nb False by auto
          from Cons.IH[OF Cons.prems] show ?thesis unfolding st pu .
        next
          case True
          show ?thesis
          proof (cases "getitem (s ! res) i")
            case (Inl e)
            then show ?thesis using hv c nb True by (intro same) (simp add: load_item_def)
          next
            case r: (Inr r)
            show ?thesis
            proof (cases "int_truediv_pow2 shots (1 + count_list (s ! hl) 1)")
              case (Inl e)
              then show ?thesis using hv c nb True r by (intro same) (simp add: load_item_def)
            next
              case d: (Inr d)
              from getitem_setitem[OF r, of "r + d"] obtain xs where
                xs: "setitem (s ! res) i (r + d) = Inr xs" by blast
              let ?s = "s[res := xs]"
              have hl: "?s ! hl = s ! hl" using Cons.prems by simp
              have rs: "?s ! res = xs" using Cons.prems by simp
              have st: "qubit_loop_st s hl bs shots res i (q # qs) =
                        qubit_loop_st ?s hl bs shots res i qs"
                using hv c nb True d r xs by (auto simp: load_item_def store_item_def)
              have pu: "qubit_loop (s ! hl) bs shots i (q # qs) (s ! res) =
                        qubit_loop (?s ! hl) bs shots i qs (?s ! res)"
                using hv c nb True d r xs by (auto simp: hl rs)
              have "hl < length ?s" "res < length ?s" "hl \<noteq> res" using Cons.prems by simp_all
              from Cons.IH[OF this] obtain r' where
                "snd (qubit_loop_st ?s hl bs shots res i qs) = ?s[res := r']"
                "case qubit_loop (?s ! hl) bs shots i qs (?s ! res) of
                   Inl e \<Rightarrow> fst (qubit_loop_st ?s hl bs shots res i qs) = Some e
                 | Inr r \<Rightarrow> fst (qubit_loop_st ?s hl bs shots res i qs) = None \<and> r' = r"
                by blast
              then show ?thesis unfolding st pu by (intro exI[of _ r']) simp
            qed
          qed
        qed
      qed
    qed
  qed
qed

lemma state_loop_st_sim:
  "hl < length s \<Longrightarrow> res < length s \<Longrightarrow> hl \<noteq> res \<Longrightarrow>
   \<exists>r'. snd (state_loop_st s n hl shots res js) = s[res := r'] \<and>
     (case state_loop n (s ! hl) shots js (s ! res) of
        Inl e \<Rightarrow> fst (state_loop_st s n hl shots res js) = Some e
      | Inr r \<Rightarrow> fst (state_loop_st s n hl shots res js) = None \<and> r' = r)"
proof (induction js arbitrary: s)
  case Nil
  then show ?case by (intro exI[of _ "s ! res"]) simp
next
  case (Cons j js)
  let ?q = "qubit_loop_st s hl (basis_state_of n j) shots res j (py_range n)"
  from qubit_loop_st_sim[OF Cons.prems, of "basis_state_of n j" shots j "py_range n"]
  obtain r1 where r1: "snd ?q = s[res := r1]"
    "case qubit_loop (s ! hl) (basis_state_of n j) shots j (py_range n) (s ! res) of
       Inl e \<Rightarrow> fst ?q = Some e
     | Inr r \<Rightarrow> fst ?q = None \<and> r1 = r"
    by blast
  show ?case
  proof (cases "qubit_loop (s ! hl) (basis_state_of n j) shots j (py_range n) (s ! res)")
    case (Inl e)
    then have "?q = (Some e, s[res := r1])" using r1 by (simp add: prod_eq_iff)
    then show ?thesis using Inl by (intro exI[of _ r1]) simp
  next
    case (Inr r)
    then have q: "?q = (None, s[res := r])" using r1 by (simp add: prod_eq_iff)
    let ?s = "s[res := r]"
    have hl: "?s ! hl = s ! hl" and rs: "?s ! res = r" using Cons.prems by simp_all
    have "hl < length ?s" "res < length ?s" "hl \<noteq> res" using Cons.prems by simp_all
    from Cons.IH[OF this] obtain r' where r':
      "snd (state_loop_st ?s n hl shots res js) = ?s[res := r']"
      "case state_loop n (?s ! hl) shots js (?s ! res) of
         Inl e \<Rightarrow> fst (state_loop_st ?s n hl shots res js) = Some e
       | Inr r \<Rightarrow> fst (state_loop_st ?s n hl shots res js) = None \<and> r' = r"
      by blast
    have st: "state_loop_st s n hl shots res (j # js) = state_loop_st ?s n hl shots res js"
      using q by simp
    have pu: "state_loop n (s ! hl) shots (j # js) (s ! res) =
        state_loop n (?s ! hl) shots js (?s ! res)"
      using Inr by (simp add: hl rs)
    show ?thesis unfolding st pu using r' by (intro exI[of _ r']) simp
  qed
qed

lemma run_hadamard_simulator_st_sim:
  assumes lq: "lq < length s"
  shows "returned (run_hadamard_simulator_st s n lq shots) = run_hadamard_simulator n (s ! lq) shots \<and>
     length s \<le> length (snd (run_hadamard_simulator_st s n lq shots)) \<and>
     (\<forall>a<length s. snd (run_hadamard_simulator_st s n lq shots) ! a = s ! a) \<and>
     (\<forall>a. fst (run_hadamard_simulator_st s n lq shots) = Inr a \<longrightarrow> length s \<le> a)"
proof (cases "list_repeat n")
  case (Inl e)
  then have "run_hadamard_simulator_st s n lq shots = (Inl e, s)"
    by (simp add: run_hadamard_simulator_st_def)
  then show ?thesis using Inl by (simp add: returned_def run_hadamard_simulator_def)
next
  case zeros: (Inr zeros)
  let ?hl = "length s"
  let ?s1 = "s @ [zeros]"
  let ?qs = "s ! lq"
  have s1: "?s1 ! lq = ?qs" "?s1 ! ?hl = zeros" "?hl < length ?s1"
    using lq by (simp_all add: nth_append)
  obtain e1 s2 where l1: "hadamard_loop_st ?s1 ?hl ?qs = (e1, s2)"
    by (cases "hadamard_loop_st ?s1 ?hl ?qs")
  from hadamard_loop_st_sim[OF s1(3), of ?qs, unfolded l1 fst_conv snd_conv s1(2)]
  obtain h' where h': "s2 = ?s1[?hl := h']"
    "case hadamard_loop zeros ?qs of
        Inl e \<Rightarrow> e1 = Some e
      | Inr h \<Rightarrow> e1 = None \<and> h' = h"
    by blast
  have s2: "length s2 = Suc (length s)" "\<forall>a<length s. s2 ! a = s ! a"
    by (simp_all add: h' nth_append)
  have run1: "run_hadamard_simulator_st s n lq shots =
      (case (e1, s2) of
             (Some e, s2) \<Rightarrow> (Inl e, s2)
           | (None, s2) \<Rightarrow>
               if n < 0 then (Inl TypeError, s2)
               else
                 (case list_repeat (2 ^ nat n) of
                    Inl e \<Rightarrow> (Inl e, s2)
                  | Inr zeros' \<Rightarrow>
                      (case new_list s2 zeros' of
                         (result, s3) \<Rightarrow>
                           (case state_loop_st s3 n ?hl shots result (py_range (2 ^ nat n)) of
                              (Some e, s4) \<Rightarrow> (Inl e, s4)
                            | (None, s4) \<Rightarrow> (Inr result, s4)))))"
    unfolding run_hadamard_simulator_st_def zeros sum.case new_list_def prod.case s1(1) l1 ..
  have pure1: "run_hadamard_simulator n ?qs shots =
      (case hadamard_loop zeros ?qs of
         Inl e \<Rightarrow> Inl e
       | Inr hadamard_list \<Rightarrow>
           if n < 0 then Inl TypeError
           else
             (case list_repeat (2 ^ nat n) of
                Inl e \<Rightarrow> Inl e
              | Inr result \<Rightarrow> state_loop n hadamard_list shots (py_range (2 ^ nat n)) result))"
    unfolding run_hadamard_simulator_def zeros sum.case ..
  show ?thesis
  proof (cases "hadamard_loop zeros ?qs")
    case (Inl e)
    then have "run_hadamard_simulator_st s n lq shots = (Inl e, s2)"
      using h'(2) run1 by simp
    then show ?thesis using Inl s2 pure1 by (simp add: returned_def)
  next
    case (Inr h)
    then have e1: "e1 = None" and hh: "h' = h" using h'(2) by simp_all
    show ?thesis
    proof (cases "n < 0")
      case True
      then have "run_hadamard_simulator_st s n lq shots = (Inl TypeError, s2)"
        using e1 run1 by simp
      then show ?thesis using Inr True s2 pure1 by (simp add: returned_def)
    next
      case False
      show ?thesis
      proof (cases "list_repeat (2 ^ nat n)")
        case (Inl e)
        then have "run_hadamard_simulator_st s n lq shots = (Inl e, s2)"
          using e1 run1 False by simp
        then show ?thesis using Inr False Inl s2 pure1 by (simp add: returned_def)
      next
        case zeros': (Inr zeros')
        let ?res = "length s2"
        let ?s3 = "s2 @ [zeros']"
        let ?js = "py_range (2 ^ nat n)"
        have s3: "?s3 ! ?hl = h" "?s3 ! ?res = zeros'" "?hl < length ?s3"
          "?res < length ?s3" "?hl \<noteq> ?res"
          using s2(1) by (simp_all add: nth_append h' hh)
        obtain e3 s4 where l3: "state_loop_st ?s3 n ?hl shots ?res ?js = (e3, s4)"
          by (cases "state_loop_st ?s3 n ?hl shots ?res ?js")
        from state_loop_st_sim[OF s3(3,4,5), of n shots ?js, unfolded l3 fst_conv snd_conv s3(1,2)]
        obtain r' where r':
          "s4 = ?s3[?res := r']"
          "case state_loop n h shots ?js zeros' of
             Inl e \<Rightarrow> e3 = Some e
           | Inr r \<Rightarrow> e3 = None \<and> r' = r"
          by blast
        have s4: "length s \<le> length s4" "\<forall>a<length s. s4 ! a = s ! a" "s4 ! ?res = r'"
          using s2 by (simp_all add: r'(1) nth_append)
        have run3: "run_hadamard_simulator_st s n lq shots =
            (case (e3, s4) of (Some e, s4) \<Rightarrow> (Inl e, s4) | (None, s4) \<Rightarrow> (Inr ?res, s4))"
          unfolding run1 e1 using False zeros' by (simp add: new_list_def l3)
        have pure: "run_hadamard_simulator n ?qs shots = state_loop n h shots ?js zeros'"
          using Inr False zeros' pure1 by simp
        show ?thesis
        proof (cases "state_loop n h shots ?js zeros'")
          case (Inl e)
          then have "run_hadamard_simulator_st s n lq shots = (Inl e, s4)"
            using r'(2) run3 by simp
          then show ?thesis using Inl pure s4 by (simp add: returned_def)
        next
          case r: (Inr r)
          then have "run_hadamard_simulator_st s n lq shots = (Inr ?res, s4)" "r' = r"
            using r'(2) run3 by simp_all
          then show ?thesis using r pure s4 s2(1) by (simp add: returned_def)
        qed
      qed
    qed
  qed
qed

lemmas store_eval = run_hadamard_simulator_st_def new_list_def load_item_def store_item_def
  returned_def


text \<open>
  Claim C6: \<^verbatim>\<open>run_hadamard_simulator\<close> is deterministic and stateless.  On the store
  model: what a call returns (the exception, or the contents of the returned list) is
  the value of the function of the three argument values, whatever else the store
  holds, so two calls with equal arguments return equal lists; a call changes no list
  that existed before it (it writes only the two lists it creates); hence a call made
  after any other call, on the store which that call left, returns what it would have
  returned without it.
\<close>

theorem run_hadamard_simulator_stateless:
  assumes "lq < length s" "lq' < length s'" "s ! lq = s' ! lq'" "lq2 < length s"
  shows "returned (run_hadamard_simulator_st s n lq shots) =
           returned (run_hadamard_simulator_st s' n lq' shots) \<and>
         returned (run_hadamard_simulator_st s n lq shots) =
           run_hadamard_simulator n (s ! lq) shots \<and>
         (\<forall>a<length s. snd (run_hadamard_simulator_st s n lq shots) ! a = s ! a) \<and>
         returned (run_hadamard_simulator_st (snd (run_hadamard_simulator_st s n2 lq2 shots2))
                     n lq shots) =
           returned (run_hadamard_simulator_st s n lq shots)"
proof -
  note a = run_hadamard_simulator_st_sim[OF assms(1), of n shots]
  note b = run_hadamard_simulator_st_sim[OF assms(2), of n shots]
  note c = run_hadamard_simulator_st_sim[OF assms(4), of n2 shots2]
  let ?t = "snd (run_hadamard_simulator_st s n2 lq2 shots2)"
  have t: "lq < length ?t" "?t ! lq = s ! lq" using c assms(1) by simp_all
  have "returned (run_hadamard_simulator_st ?t n lq shots) = run_hadamard_simulator n (s ! lq) shots"
    using run_hadamard_simulator_st_sim[OF t(1), of n shots] t(2) by simp
  then show ?thesis using a b assms(3) by simp
qed

theorem run_hadamard_simulator_stateless_witness:
  "(0::nat) < length [[0::int]] \<and> (0::nat) < length [[0::int], [1], [256, 256]] \<and>
   [[0::int]] ! 0 = [[0], [1], [256, 256]] ! 0 \<and>
   run_hadamard_simulator_st [[0]] 1 0 1024 = (Inr 2, [[0], [1], [256, 256]]) \<and>
   returned (run_hadamard_simulator_st [[0]] 1 0 1024) = Inr [256, 256] \<and>
   returned (run_hadamard_simulator_st [[0], [1], [256, 256]] 1 0 1024) = Inr [256, 256]"
proof -
  have h: "(0::nat) < length [[0::int]]" "(0::nat) < length [[0::int], [1], [256, 256]]"
    "[[0::int]] ! 0 = [[0], [1], [256, 256]] ! 0"
    by simp_all
  have first: "run_hadamard_simulator_st [[0]] 1 0 1024 = (Inr 2, [[0], [1], [256, 256]])"
    by (simp add: store_eval run_eval)
  then have r: "returned (run_hadamard_simulator_st [[0]] 1 0 1024) = Inr [256, 256]"
    by (simp add: returned_def)
  from run_hadamard_simulator_stateless[OF h h(1), of 1 1024]
  have "returned (run_hadamard_simulator_st [[0]] 1 0 1024) =
        returned (run_hadamard_simulator_st [[0], [1], [256, 256]] 1 0 1024)"
    by (rule conjunct1)
  then show ?thesis using h first r by simp
qed


section \<open>Properties of the backend\<close>

subsection \<open>The instructions of a circuit\<close>





lemma hex_digit_inj: "i < 16 \<Longrightarrow> j < 16 \<Longrightarrow> hex_digit i = hex_digit j \<Longrightarrow> i = j"
proof -
  assume a: "i < 16" "j < 16" "hex_digit i = hex_digit j"
  have "distinct ''0123456789abcdef''" by simp
  moreover have "i < length ''0123456789abcdef''" "j < length ''0123456789abcdef''"
    using a by simp_all
  ultimately show "i = j" using a(3) unfolding hex_digit_def
    by (simp only: nth_eq_iff_index_eq)
qed

lemma hex_digits_nonempty: "hex_digits i \<noteq> []"
  by (subst hex_digits.simps) simp

lemma hex_digits_inj: "hex_digits i = hex_digits j \<Longrightarrow> i = j"
proof (induction i arbitrary: j rule: hex_digits.induct)
  case (1 i)
  show ?case
  proof (cases "i < 16")
    case True
    then have i: "hex_digits i = [hex_digit i]" by (subst hex_digits.simps) simp
    show ?thesis
    proof (cases "j < 16")
      case j: True
      then have "hex_digits j = [hex_digit j]" by (subst hex_digits.simps) simp
      then show ?thesis using "1.prems" i True j by (simp add: hex_digit_inj)
    next
      case False
      then have "hex_digits j = hex_digits (j div 16) @ [hex_digit (j mod 16)]"
        by (subst hex_digits.simps) simp
      then show ?thesis using "1.prems" i hex_digits_nonempty[of "j div 16"] by simp
    qed
  next
    case False
    then have i: "hex_digits i = hex_digits (i div 16) @ [hex_digit (i mod 16)]"
      by (subst hex_digits.simps) simp
    show ?thesis
    proof (cases "j < 16")
      case True
      then have "hex_digits j = [hex_digit j]" by (subst hex_digits.simps) simp
      then show ?thesis using "1.prems" i hex_digits_nonempty[of "i div 16"] by simp
    next
      case j: False
      then have "hex_digits j = hex_digits (j div 16) @ [hex_digit (j mod 16)]"
        by (subst hex_digits.simps) simp
      with "1.prems" i have e: "hex_digits (i div 16) = hex_digits (j div 16)"
        "hex_digit (i mod 16) = hex_digit (j mod 16)" by simp_all
      from "1.IH"[OF False e(1)] have "i div 16 = j div 16" .
      moreover have "i mod 16 = j mod 16" using e(2) by (intro hex_digit_inj) simp_all
      ultimately show ?thesis by (metis div_mult_mod_eq)
    qed
  qed
qed

lemma hex_inj: "hex (int i) = hex (int j) \<Longrightarrow> i = j"
  by (simp add: hex_def hex_digits_inj)

subsection \<open>The loops of \<^verbatim>\<open>run\<close>\<close>

lemma setitem_length: "setitem xs i v = Inr ys \<Longrightarrow> length ys = length xs"
  by (auto simp: setitem_def split: sum.splits)

lemma hadamard_loop_length: "hadamard_loop h qs = Inr h' \<Longrightarrow> length h' = length h"
proof (induction qs arbitrary: h)
  case Nil
  then show ?case by simp
next
  case (Cons q qs)
  then obtain b h1 where "setitem h q b = Inr h1" "hadamard_loop h1 qs = Inr h'"
    by (auto split: sum.splits)
  then show ?case using Cons.IH setitem_length by fastforce
qed

lemma qubit_loop_length:
  "qubit_loop h bs shots i qs result = Inr result' \<Longrightarrow> length result' = length result"
proof (induction qs arbitrary: result)
  case Nil
  then show ?case by simp
next
  case (Cons q qs)
  from Cons.prems obtain hv where hv: "getitem h q = Inr hv"
    by (cases "getitem h q") simp_all
  from Cons.prems hv obtain c where c: "(if hv = 0 then getitem bs q else Inr CHR ''0'') = Inr c"
    by (cases "if hv = 0 then getitem bs q else Inr CHR ''0''") simp_all
  show ?case
  proof (cases "hv = 0 \<and> c = CHR ''1''")
    case True
    then have "setitem result i 0 = Inr result'" using Cons.prems hv c by simp
    then show ?thesis by (rule setitem_length)
  next
    case nb: False
    show ?thesis
    proof (cases "hv = 1")
      case True
      from Cons.prems hv c nb True obtain r where r: "getitem result i = Inr r"
        by (cases "getitem result i") simp_all
      from Cons.prems hv c nb True r obtain d where
        d: "int_truediv_pow2 shots (1 + count_list h 1) = Inr d"
        by (cases "int_truediv_pow2 shots (1 + count_list h 1)") simp_all
      from Cons.prems hv c nb True d r obtain r1 where r1: "setitem result i (r + d) = Inr r1"
        by (cases "setitem result i (r + d)") simp_all
      from Cons.prems hv c nb True d r r1 have "qubit_loop h bs shots i qs r1 = Inr result'"
        by simp
      then have "length result' = length r1" by (rule Cons.IH)
      then show ?thesis using setitem_length[OF r1] by simp
    next
      case False
      with Cons.prems hv c nb have "qubit_loop h bs shots i qs result = Inr result'" by simp
      then show ?thesis by (rule Cons.IH)
    qed
  qed
qed

lemma state_loop_length:
  "state_loop n h shots js result = Inr result' \<Longrightarrow> length result' = length result"
proof (induction js arbitrary: result)
  case Nil
  then show ?case by simp
next
  case (Cons j js)
  then obtain r1 where "qubit_loop h (basis_state_of n j) shots j (py_range n) result = Inr r1"
    "state_loop n h shots js r1 = Inr result'"
    by (auto split: sum.splits)
  then show ?case using Cons.IH qubit_loop_length by fastforce
qed

lemma run_hadamard_simulator_length:
  assumes "run_hadamard_simulator n qs shots = Inr result"
  shows "0 \<le> n \<and> length result = 2 ^ nat n"
proof -
  from run_hadamard_simulator_returned[OF assms] have n: "0 \<le> n" "nat n < 60" by auto
  from assms obtain zeros where z: "list_repeat n = Inr zeros"
    by (cases "list_repeat n") (simp_all add: run_hadamard_simulator_def)
  from assms z obtain h where h: "hadamard_loop zeros qs = Inr h"
    by (cases "hadamard_loop zeros qs") (simp_all add: run_hadamard_simulator_def)
  from assms z h n
  have s: "state_loop n h shots (py_range (2 ^ nat n)) (replicate (2 ^ nat n) 0) = Inr result"
    by (simp add: run_hadamard_simulator_def list_repeat_states)
  from state_loop_length[OF s] n show ?thesis by simp
qed

lemma counts_loop_result:
  "distinct js \<Longrightarrow> \<forall>i\<in>set js. i < length counts \<Longrightarrow>
   \<exists>fc'. counts_loop counts (map int js) fc = Inr fc' \<and>
     (\<forall>i\<in>set js. fc' (hex (int i)) = (if counts ! i \<noteq> 0 then Some (counts ! i) else fc (hex (int i)))) \<and>
     (\<forall>k. k \<notin> (\<lambda>i. hex (int i)) ` set js \<longrightarrow> fc' k = fc k)"
proof (induction js arbitrary: fc)
  case Nil
  then show ?case by simp
next
  case (Cons i js)
  let ?fc1 = "if counts ! i \<noteq> 0 then fc(hex (int i) \<mapsto> counts ! i) else fc"
  have i: "i < length counts" "i \<notin> set js" using Cons.prems by simp_all
  have step: "counts_loop counts (map int (i # js)) fc = counts_loop counts (map int js) ?fc1"
    using i(1) by (simp add: getitem_nat)
  have "distinct js" "\<forall>i\<in>set js. i < length counts" using Cons.prems by simp_all
  from Cons.IH[OF this, of ?fc1] obtain fc' where fc':
    "counts_loop counts (map int js) ?fc1 = Inr fc'"
    "\<forall>j\<in>set js. fc' (hex (int j)) = (if counts ! j \<noteq> 0 then Some (counts ! j) else ?fc1 (hex (int j)))"
    "\<forall>k. k \<notin> (\<lambda>i. hex (int i)) ` set js \<longrightarrow> fc' k = ?fc1 k"
    by blast
  have ni: "hex (int i) \<notin> (\<lambda>i. hex (int i)) ` set js"
    using i(2) hex_inj by blast
  have a: "fc' (hex (int j)) = (if counts ! j \<noteq> 0 then Some (counts ! j) else fc (hex (int j)))"
    if "j \<in> set (i # js)" for j
  proof (cases "j = i")
    case True
    then show ?thesis using fc'(3) ni by simp
  next
    case False
    then have "j \<in> set js" using that by simp
    moreover have "hex (int j) \<noteq> hex (int i)" using False hex_inj by blast
    ultimately show ?thesis using fc'(2) by simp
  qed
  have b: "fc' k = fc k" if "k \<notin> (\<lambda>i. hex (int i)) ` set (i # js)" for k
    using that fc'(3) by simp
  from step fc'(1) a b show ?case by auto
qed

lemma counts_loop_range:
  assumes "length counts = 2 ^ n"
  shows "\<exists>fc. counts_loop counts (py_range (2 ^ n)) Map.empty = Inr fc \<and>
     (\<forall>i<length counts. fc (hex (int i)) = (if counts ! i \<noteq> 0 then Some (counts ! i) else None)) \<and>
     dom fc \<subseteq> (\<lambda>i. hex (int i)) ` {..<length counts}"
proof -
  let ?js = "[0..<length counts]"
  have "nat ((2::int) ^ n) = 2 ^ n" by (simp add: nat_power_eq)
  then have r: "py_range (2 ^ n) = map int ?js"
    unfolding py_range_def assms by (rule arg_cong)
  have "distinct ?js" "\<forall>i\<in>set ?js. i < length counts" by simp_all
  from counts_loop_result[OF this, of Map.empty] obtain fc where fc:
    "counts_loop counts (map int ?js) Map.empty = Inr fc"
    "\<forall>i\<in>set ?js. fc (hex (int i)) = (if counts ! i \<noteq> 0 then Some (counts ! i) else Map.empty (hex (int i)))"
    "\<forall>k. k \<notin> (\<lambda>i. hex (int i)) ` set ?js \<longrightarrow> fc k = Map.empty k"
    by blast
  have 1: "\<forall>i<length counts. fc (hex (int i)) = (if counts ! i \<noteq> 0 then Some (counts ! i) else None)"
    using fc(2) by simp
  have 2: "dom fc \<subseteq> (\<lambda>i. hex (int i)) ` {..<length counts}"
  proof
    fix k assume "k \<in> dom fc"
    then have "fc k \<noteq> None" by auto
    then have "k \<in> (\<lambda>i. hex (int i)) ` set ?js" using fc(3) by fastforce
    then show "k \<in> (\<lambda>i. hex (int i)) ` {..<length counts}" by (simp add: atLeast0LessThan)
  qed
  show ?thesis unfolding r using fc(1) 1 2 by blast
qed

lemma run_circuit_result:
  assumes "run_circuit shots circuit = Inr er"
  shows "exp_success er \<and> exp_shots er = shots \<and> exp_name er = header_name (header circuit) \<and>
     exp_header er = header circuit \<and>
     (\<exists>qs counts. instructions_loop (instructions circuit) [] = Inr qs \<and>
        run_hadamard_simulator (config_n_qubits circuit) qs shots = Inr counts \<and>
        (\<forall>i<length counts. exp_counts er (hex (int i)) =
            (if counts ! i \<noteq> 0 then Some (counts ! i) else None)) \<and>
        dom (exp_counts er) \<subseteq> (\<lambda>i. hex (int i)) ` {..<length counts})"
proof -
  let ?n = "config_n_qubits circuit"
  from assms obtain qs counts fc where
    qs: "instructions_loop (instructions circuit) [] = Inr qs"
    and counts: "run_hadamard_simulator ?n qs shots = Inr counts"
    and fc: "counts_loop counts (py_range (2 ^ nat ?n)) Map.empty = Inr fc"
    and er: "er = \<lparr>exp_name = header_name (header circuit), exp_success = True, exp_shots = shots,
                   exp_counts = fc, exp_header = header circuit\<rparr>"
    by (auto simp: run_circuit_def Let_def split: sum.splits)
  from run_hadamard_simulator_length[OF counts] have len: "length counts = 2 ^ nat ?n" by simp
  from counts_loop_range[OF len] fc have
    "(\<forall>i<length counts. fc (hex (int i)) = (if counts ! i \<noteq> 0 then Some (counts ! i) else None)) \<and>
     dom fc \<subseteq> (\<lambda>i. hex (int i)) ` {..<length counts}"
    by auto
  then show ?thesis using qs counts er by auto
qed

lemma experiments_loop_result:
  "experiments_loop shots circuits acc = Inr rs \<Longrightarrow>
     \<exists>rs'. rs = acc @ rs' \<and> length rs' = length circuits \<and>
       (\<forall>k<length circuits. run_circuit shots (circuits ! k) = Inr (rs' ! k))"
proof (induction circuits arbitrary: acc)
  case Nil
  then show ?case by simp
next
  case (Cons circuit rest)
  then obtain r where r: "run_circuit shots circuit = Inr r"
    and l: "experiments_loop shots rest (acc @ [r]) = Inr rs"
    by (auto split: sum.splits)
  from Cons.IH[OF l] obtain rs' where rs': "rs = (acc @ [r]) @ rs'" "length rs' = length rest"
    "\<forall>k<length rest. run_circuit shots (rest ! k) = Inr (rs' ! k)" by blast
  have "\<forall>k<length (circuit # rest). run_circuit shots ((circuit # rest) ! k) = Inr ((r # rs') ! k)"
    using r rs'(3) by (auto simp: nth_Cons split: nat.splits)
  then show ?case using rs'(1,2) by (intro exI[of _ "r # rs'"]) simp
qed








lemmas qobj_eval = HadamardSimulator_run_def run_circuit_def truthy_def hex_def hex_digits.simps
  hex_digit_def HadamardJob_init_def h_gate_def measure_op_def

lemma notebook_run:
  "HadamardSimulator_run (HadamardSimulator_init None) notebook_qobj = Inr notebook_job"
  by (simp add: notebook_qobj_def notebook_circuit_def notebook_job_def notebook_result_def
      qobj_eval run_eval)


lemma x_gate_run:
  "HadamardSimulator_run (HadamardSimulator_init None) x_gate_qobj = Inl NameError"
  by (simp add: x_gate_qobj_def qobj_eval run_eval)


lemma conditional_one_run:
  "HadamardSimulator_run (HadamardSimulator_init None) conditional_one_qobj = Inl NameError"
  by (simp add: conditional_one_qobj_def qobj_eval run_eval)

subsection \<open>Accepted and rejected qobjs\<close>

lemma supported_plain:
  "h_or_measure operation \<Longrightarrow> \<not> is_conditional operation \<Longrightarrow> supported operation"
  by (simp add: supported_def h_or_measure_def is_conditional_def truthy_def)








subsection \<open>Instructions named \<open>measure\<close>\<close>











section \<open>The claims about the backend\<close>




text \<open>
  Claim C5: execution is synchronous.  When \<^verbatim>\<open>run\<close> returns a job, the job already
  holds the result: \<^verbatim>\<open>result()\<close> returns it at once, it says success, and it has one
  entry for each experiment of the qobj, in order, with the qobj's number of shots and
  with the counts of the simulator for that experiment, the non-zero ones, under the
  hexadecimal names of their basis states.
\<close>

theorem run_result_precomputed:
  assumes "HadamardSimulator_run self qobj = Inr job"
  shows "\<exists>r. HadamardJob_result job = Inr r \<and> job_result job = Some r \<and> success r \<and>
     length (results r) = length (experiments qobj) \<and>
     (\<forall>k<length (experiments qobj).
        exp_success (results r ! k) \<and> exp_shots (results r ! k) = config_shots qobj \<and>
        (\<exists>qs counts.
           instructions_loop (instructions (experiments qobj ! k)) [] = Inr qs \<and>
           run_hadamard_simulator (config_n_qubits (experiments qobj ! k)) qs (config_shots qobj) =
             Inr counts \<and>
           (\<forall>i<length counts. exp_counts (results r ! k) (hex (int i)) =
               (if counts ! i \<noteq> 0 then Some (counts ! i) else None)) \<and>
           dom (exp_counts (results r ! k)) \<subseteq> (\<lambda>i. hex (int i)) ` {..<length counts}))"
proof -
  from assms obtain rs where rs: "experiments_loop (config_shots qobj) (experiments qobj) [] = Inr rs"
    and job: "job = (HadamardJob_init None)\<lparr>job_result :=
                    Some \<lparr>results = rs,
                          result_backend_name = ''hadamard_simulator'',
                          result_backend_version = ''0.1.0'',
                          qobj_id = ''0'',
                          result_job_id = ''0'',
                          success = True\<rparr>\<rparr>"
    by (auto simp: HadamardSimulator_run_def Let_def split: sum.splits)
  let ?r = "\<lparr>results = rs, result_backend_name = ''hadamard_simulator'',
             result_backend_version = ''0.1.0'', qobj_id = ''0'', result_job_id = ''0'',
             success = True\<rparr>"
  from experiments_loop_result[OF rs] have len: "length rs = length (experiments qobj)"
    and each: "\<forall>k<length (experiments qobj).
        run_circuit (config_shots qobj) (experiments qobj ! k) = Inr (rs ! k)"
    by auto
  have r: "HadamardJob_result job = Inr ?r" "job_result job = Some ?r"
    by (simp_all add: job HadamardJob_result_def)
  have "exp_success (rs ! k) \<and> exp_shots (rs ! k) = config_shots qobj \<and>
        (\<exists>qs counts.
           instructions_loop (instructions (experiments qobj ! k)) [] = Inr qs \<and>
           run_hadamard_simulator (config_n_qubits (experiments qobj ! k)) qs (config_shots qobj) =
             Inr counts \<and>
           (\<forall>i<length counts. exp_counts (rs ! k) (hex (int i)) =
               (if counts ! i \<noteq> 0 then Some (counts ! i) else None)) \<and>
           dom (exp_counts (rs ! k)) \<subseteq> (\<lambda>i. hex (int i)) ` {..<length counts})"
    if "k < length (experiments qobj)" for k
    using run_circuit_result[OF each[rule_format, OF that]] by blast
  then show ?thesis using r len by (intro exI[of _ ?r]) simp
qed

theorem run_result_precomputed_witness:
  "HadamardSimulator_run (HadamardSimulator_init None) notebook_qobj = Inr notebook_job \<and>
   HadamardJob_result notebook_job = Inr notebook_result \<and> success notebook_result \<and>
   length (results notebook_result) = length (experiments notebook_qobj)"
proof -
  from run_result_precomputed[OF notebook_run] obtain r where
    "HadamardJob_result notebook_job = Inr r" "job_result notebook_job = Some r" "success r"
    "length (results r) = length (experiments notebook_qobj)" by blast
  moreover from this have "r = notebook_result" by (simp add: notebook_job_def)
  ultimately show ?thesis using notebook_run by simp
qed



section \<open>The claims about the job and the provider\<close>

text \<open>
  Claim C7: \<^verbatim>\<open>HadamardJob\<close> is an inert stub.  Each of \<^verbatim>\<open>cancel()\<close>, \<^verbatim>\<open>status()\<close>
  and \<^verbatim>\<open>submit()\<close> returns \<^verbatim>\<open>None\<close> and leaves the job, with its stored result and its
  backend, as it was.
\<close>

theorem HadamardJob_inert:
  "HadamardJob_cancel job = ((), job) \<and>
   HadamardJob_status job = ((), job) \<and>
   HadamardJob_submit job = ((), job) \<and>
   job_result (snd (HadamardJob_cancel job)) = job_result job \<and>
   job_backend (snd (HadamardJob_cancel job)) = job_backend job \<and>
   job_result (snd (HadamardJob_status job)) = job_result job \<and>
   job_backend (snd (HadamardJob_status job)) = job_backend job \<and>
   job_result (snd (HadamardJob_submit job)) = job_result job \<and>
   job_backend (snd (HadamardJob_submit job)) = job_backend job"
  by (simp add: HadamardJob_cancel_def HadamardJob_status_def HadamardJob_submit_def)

text \<open>
  Claim C3: \<^verbatim>\<open>HadamardProvider.backends\<close> filters a static list.  As stated (the
  backends whose name equals \<open>name\<close> whenever a name is given) the claim fails for the
  empty name, which the code's \<^verbatim>\<open>if name:\<close> treats like \<^verbatim>\<open>None\<close>: the whole list comes
  back although no backend has the empty name.
\<close>

theorem backends_empty_name_counterexample:
  "fst (backends (HadamardProvider_init 0) (Some []) None) = [HadamardSimulator_init (Some 0)] \<and>
   backends_by_name (HadamardProvider_init 0) (Some []) = []"
  by (simp add: backends_def backends_by_name_def HadamardProvider_init_def filter_backends_def
      HadamardSimulator_name_def HadamardSimulator_init_def)

text \<open>
  Claim C3, amended: for a name that is a non-empty string, \<^verbatim>\<open>backends\<close> returns the
  members of the provider's list whose \<^verbatim>\<open>name()\<close> equals it; for \<^verbatim>\<open>None\<close> and for the
  empty string it returns the whole list; the list is the single
  \<^verbatim>\<open>HadamardSimulator\<close> that the constructor put there; and the call leaves the
  provider, hence its list, as it was.
\<close>

theorem backends_filters_static_list:
  "backends self name None =
     (if name = None \<or> name = Some []
      then provider_backends self
      else filter (\<lambda>backend. Some (HadamardSimulator_name backend) = name) (provider_backends self),
      self) \<and>
   provider_backends (HadamardProvider_init r) = [HadamardSimulator_init (Some r)] \<and>
   fst (backends (HadamardProvider_init r) name None) =
     (if name = None \<or> name = Some [] \<or> name = Some ''hadamard_simulator''
      then [HadamardSimulator_init (Some r)] else []) \<and>
   snd (backends self name filters) = self"
proof -
  have a: "backends p name None =
     (if name = None \<or> name = Some []
      then provider_backends p
      else filter (\<lambda>backend. Some (HadamardSimulator_name backend) = name) (provider_backends p),
      p)" for p
    by (cases name) (simp_all add: backends_def filter_backends_def)
  have b: "provider_backends (HadamardProvider_init r) = [HadamardSimulator_init (Some r)]"
    by (simp add: HadamardProvider_init_def)
  have n: "HadamardSimulator_name (HadamardSimulator_init (Some r)) = ''hadamard_simulator''"
    by (simp add: HadamardSimulator_name_def HadamardSimulator_init_def)
  have c: "fst (backends (HadamardProvider_init r) name None) =
     (if name = None \<or> name = Some [] \<or> name = Some ''hadamard_simulator''
      then [HadamardSimulator_init (Some r)] else [])"
    using n by (auto simp: a b)
  have d: "snd (backends self name filters) = self"
    by (simp add: backends_def Let_def)
  from a b c d show ?thesis by blast
qed


end
